theory Spec2Isabelle
  imports Complex_Main
begin

section \<open>Dynamic programming on a gridworld: \<^verbatim>\<open>policy_iteration.py\<close>\<close>

text \<open>
  The numbers of the program are modelled as exact reals, the arrays as lists. The two
  kinds of numpy arrays the program passes around by reference (value functions, of one
  dimension, and policies, of two) live in a store, addressed by their position, so that
  an assignment through one name is seen through every other name of the same array.
  Arrays that never leave the function that makes them (\<^verbatim>\<open>action_values\<close>, the difference
  \<^verbatim>\<open>value_function - policy_value\<close>) are plain lists. An exception is a left injection;
  the store it leaves behind is not kept. Exact reals have no NaN and no infinity: where
  a property of the improver depends on them, it is stated on a second copy of the
  improver, over numbers that have them.
\<close>

subsection \<open>Errors and numpy indexing\<close>

datatype py_error = IndexError | ValueError

text \<open>An index \<open>i\<close> into an axis of length \<open>n\<close>: negative indices count from the end.\<close>

definition np_index :: "nat \<Rightarrow> int \<Rightarrow> py_error + nat" where
  "np_index n i =
     (if 0 \<le> i \<and> i < int n then Inr (nat i)
      else if - int n \<le> i \<and> i < 0 then Inr (nat (int n + i))
      else Inl IndexError)"

definition np_getitem :: "'a list \<Rightarrow> int \<Rightarrow> py_error + 'a" where
  "np_getitem xs i = (case np_index (length xs) i of Inl e \<Rightarrow> Inl e | Inr k \<Rightarrow> Inr (xs ! k))"

text \<open>The element an in-range index reads.\<close>

definition np_at :: "'a list \<Rightarrow> int \<Rightarrow> 'a" where
  "np_at xs i = (if 0 \<le> i then xs ! nat i else xs ! nat (int (length xs) + i))"

definition np_valid :: "nat \<Rightarrow> int \<Rightarrow> bool" where
  "np_valid n i = (- int n \<le> i \<and> i < int n)"

subsection \<open>The store\<close>

type_synonym vref = nat
type_synonym mref = nat

record heap =
  vecs :: "real list list"
  mats :: "real list list list"

text \<open>\<^verbatim>\<open>np.zeros(n)\<close>: a new array, at an address no earlier array has.\<close>

definition np_zeros :: "heap \<Rightarrow> nat \<Rightarrow> vref \<times> heap" where
  "np_zeros h n = (length (vecs h), h\<lparr>vecs := vecs h @ [replicate n 0]\<rparr>)"

definition vec_get :: "heap \<Rightarrow> vref \<Rightarrow> int \<Rightarrow> py_error + real" where
  "vec_get h r i = np_getitem (vecs h ! r) i"

definition vec_set :: "heap \<Rightarrow> vref \<Rightarrow> int \<Rightarrow> real \<Rightarrow> py_error + heap" where
  "vec_set h r i x =
     (case np_index (length (vecs h ! r)) i of
        Inl e \<Rightarrow> Inl e
      | Inr k \<Rightarrow> Inr (h\<lparr>vecs := (vecs h)[r := (vecs h ! r)[k := x]]\<rparr>))"

text \<open>\<^verbatim>\<open>policy[state][action]\<close>\<close>

definition mat_get :: "heap \<Rightarrow> mref \<Rightarrow> int \<Rightarrow> int \<Rightarrow> py_error + real" where
  "mat_get h r i j =
     (case np_getitem (mats h ! r) i of Inl e \<Rightarrow> Inl e | Inr row \<Rightarrow> np_getitem row j)"

text \<open>
  \<^verbatim>\<open>policy[state] = row\<close>: the row is overwritten in place. numpy broadcasts a row of
  length 1 over the whole line and refuses any other length that differs.
\<close>

definition mat_set_row :: "heap \<Rightarrow> mref \<Rightarrow> int \<Rightarrow> real list \<Rightarrow> py_error + heap" where
  "mat_set_row h r i row =
     (case np_index (length (mats h ! r)) i of
        Inl e \<Rightarrow> Inl e
      | Inr k \<Rightarrow>
          if length row = length (mats h ! r ! k)
          then Inr (h\<lparr>mats := (mats h)[r := (mats h ! r)[k := row]]\<rparr>)
          else if length row = 1
          then Inr (h\<lparr>mats := (mats h)[r := (mats h ! r)[k := replicate (length (mats h ! r ! k)) (hd row)]]\<rparr>)
          else Inl ValueError)"

subsection \<open>numpy reductions\<close>

text \<open>\<^verbatim>\<open>np.amax\<close>, \<^verbatim>\<open>np.max\<close>: the largest element; an empty array has none.\<close>

fun np_amax :: "real list \<Rightarrow> py_error + real" where
  "np_amax [] = Inl ValueError"
| "np_amax (x # xs) = Inr (fold max xs x)"

text \<open>\<^verbatim>\<open>a - b\<close> on arrays of one dimension, with numpy's broadcasting of a length 1.\<close>

definition np_subtract :: "real list \<Rightarrow> real list \<Rightarrow> py_error + real list" where
  "np_subtract xs ys =
     (if length xs = length ys then Inr (map2 (-) xs ys)
      else if length xs = 1 then Inr (map (\<lambda>y. hd xs - y) ys)
      else if length ys = 1 then Inr (map (\<lambda>x. x - hd ys) xs)
      else Inl ValueError)"

text \<open>\<^verbatim>\<open>m.all()\<close>: whether no element of the matrix is zero.\<close>

definition np_all :: "real list list \<Rightarrow> bool" where
  "np_all m = list_all (list_all (\<lambda>x. x \<noteq> 0)) m"

subsection \<open>The environment\<close>

text \<open>
  The gridworld environment is not part of the file; the functions below use four of its
  members: \<^verbatim>\<open>env.world.size\<close>, \<^verbatim>\<open>env.action_space.n\<close>, \<^verbatim>\<open>env.reward_matrix\<close> and
  \<^verbatim>\<open>env.look_step_ahead(state, action)\<close>, which answers with the next state, the reward of
  the transition and the terminal flag.
\<close>

record env =
  world_size :: nat
  action_n :: nat
  reward_matrix :: "real list"
  look_step_ahead :: "nat \<Rightarrow> nat \<Rightarrow> int \<times> real \<times> bool"

subsection \<open>\<^verbatim>\<open>single_step_policy_evaluation\<close>\<close>

text \<open>
  The inner loop, \<^verbatim>\<open>for action, action_prob in enumerate(policy[state])\<close>: every turn reads
  \<^verbatim>\<open>v[next_state]\<close> and adds to \<^verbatim>\<open>v_new[state]\<close>, both through the store.
\<close>

fun eval_actions ::
  "heap \<Rightarrow> env \<Rightarrow> real \<Rightarrow> vref \<Rightarrow> vref \<Rightarrow> nat \<Rightarrow> nat \<Rightarrow> real list \<Rightarrow> py_error + heap" where
  "eval_actions h env discount_factor v v_new state action [] = Inr h"
| "eval_actions h env discount_factor v v_new state action (action_prob # rest) =
     (case look_step_ahead env state action of (next_state, reward, done) \<Rightarrow>
       (case vec_get h v next_state of Inl e \<Rightarrow> Inl e | Inr x \<Rightarrow>
         (case vec_get h v_new (int state) of Inl e \<Rightarrow> Inl e | Inr old \<Rightarrow>
           (case vec_set h v_new (int state) (old + action_prob * (discount_factor * x)) of
              Inl e \<Rightarrow> Inl e
            | Inr h' \<Rightarrow> eval_actions h' env discount_factor v v_new state (Suc action) rest))))"

text \<open>The outer loop, \<^verbatim>\<open>for state in range(env.world.size)\<close>.\<close>

fun eval_states ::
  "heap \<Rightarrow> mref \<Rightarrow> env \<Rightarrow> real \<Rightarrow> vref \<Rightarrow> vref \<Rightarrow> nat list \<Rightarrow> py_error + heap" where
  "eval_states h policy env discount_factor v v_new [] = Inr h"
| "eval_states h policy env discount_factor v v_new (state # rest) =
     (case np_getitem (reward_matrix env) (int state) of Inl e \<Rightarrow> Inl e | Inr r \<Rightarrow>
       (case vec_get h v_new (int state) of Inl e \<Rightarrow> Inl e | Inr old \<Rightarrow>
         (case vec_set h v_new (int state) (old + r) of Inl e \<Rightarrow> Inl e | Inr h1 \<Rightarrow>
           (case np_getitem (mats h1 ! policy) (int state) of Inl e \<Rightarrow> Inl e | Inr row \<Rightarrow>
             (case eval_actions h1 env discount_factor v v_new state 0 row of
                Inl e \<Rightarrow> Inl e
              | Inr h2 \<Rightarrow> eval_states h2 policy env discount_factor v v_new rest)))))"

definition single_step_policy_evaluation ::
  "heap \<Rightarrow> mref \<Rightarrow> env \<Rightarrow> real \<Rightarrow> vref option \<Rightarrow> py_error + vref \<times> heap" where
  "single_step_policy_evaluation h policy env discount_factor value_function =
     (let (v, h1) = (case value_function of
                       None \<Rightarrow> np_zeros h (world_size env)
                     | Some r \<Rightarrow> (r, h));
          (v_new, h2) = np_zeros h1 (world_size env)
      in case eval_states h2 policy env discount_factor v v_new [0..<world_size env] of
           Inl e \<Rightarrow> Inl e
         | Inr h3 \<Rightarrow> Inr (v_new, h3))"

subsection \<open>\<^verbatim>\<open>greedy_policy_from_value_function\<close>\<close>

text \<open>
  The inner loop, \<^verbatim>\<open>for action in range(env.action_space.n)\<close>, fills the local array
  \<^verbatim>\<open>action_values\<close>.
\<close>

fun greedy_actions ::
  "heap \<Rightarrow> mref \<Rightarrow> env \<Rightarrow> vref \<Rightarrow> real \<Rightarrow> nat \<Rightarrow> nat list \<Rightarrow> real list \<Rightarrow> py_error + real list" where
  "greedy_actions h policy env value_function discount_factor state [] action_values =
     Inr action_values"
| "greedy_actions h policy env value_function discount_factor state (action # rest) action_values =
     (case look_step_ahead env state action of (next_state, reward, done) \<Rightarrow>
       (case mat_get h policy (int state) (int action) of Inl e \<Rightarrow> Inl e | Inr p \<Rightarrow>
         (case vec_get h value_function next_state of Inl e \<Rightarrow> Inl e | Inr x \<Rightarrow>
           greedy_actions h policy env value_function discount_factor state rest
             (action_values[action := action_values ! action + p * (reward + discount_factor * x)]))))"

text \<open>\<^verbatim>\<open>np.where(action_values == m)[0]\<close>: the positions that hold \<open>m\<close>.\<close>

definition np_where_eq :: "real list \<Rightarrow> real \<Rightarrow> nat list" where
  "np_where_eq action_values m = filter (\<lambda>a. action_values ! a = m) [0..<length action_values]"

text \<open>The row built by \<^verbatim>\<open>np.fromiter\<close>.\<close>

definition greedy_row :: "nat list \<Rightarrow> nat \<Rightarrow> real list" where
  "greedy_row max_value_actions n =
     map (\<lambda>action. if action \<in> set max_value_actions
                    then 1 / real (length max_value_actions) else 0) [0..<n]"

text \<open>The outer loop: each turn overwrites \<^verbatim>\<open>policy[state]\<close> in the caller's array.\<close>

fun greedy_states ::
  "heap \<Rightarrow> mref \<Rightarrow> env \<Rightarrow> vref \<Rightarrow> real \<Rightarrow> nat list \<Rightarrow> py_error + heap" where
  "greedy_states h policy env value_function discount_factor [] = Inr h"
| "greedy_states h policy env value_function discount_factor (state # rest) =
     (case greedy_actions h policy env value_function discount_factor state
             [0..<action_n env] (replicate (action_n env) 0) of
        Inl e \<Rightarrow> Inl e
      | Inr action_values \<Rightarrow>
         (case np_amax action_values of Inl e \<Rightarrow> Inl e | Inr m \<Rightarrow>
           (case mat_set_row h policy (int state)
                   (greedy_row (np_where_eq action_values m) (length action_values)) of
              Inl e \<Rightarrow> Inl e
            | Inr h' \<Rightarrow> greedy_states h' policy env value_function discount_factor rest)))"

definition greedy_policy_from_value_function ::
  "heap \<Rightarrow> mref \<Rightarrow> env \<Rightarrow> vref \<Rightarrow> real \<Rightarrow> py_error + mref \<times> heap" where
  "greedy_policy_from_value_function h policy env value_function discount_factor =
     (case greedy_states h policy env value_function discount_factor [0..<world_size env] of
        Inl e \<Rightarrow> Inl e
      | Inr h' \<Rightarrow> Inr (policy, h'))"

subsection \<open>The two controllers\<close>

text \<open>
  What a controller hands back: the two arrays of the returned pair, the store it leaves,
  whether \<^verbatim>\<open>warnings.warn\<close> was called, and the final \<^verbatim>\<open>step_number\<close> and \<^verbatim>\<open>delta\<close>.
\<close>

record iteration_result =
  returned_value :: vref
  returned_policy :: mref
  final_heap :: heap
  warned :: bool
  steps :: int
  last_delta :: real

text \<open>
  \<^verbatim>\<open>while True\<close> may run forever (a \<^verbatim>\<open>max_steps\<close> below 1 is never met by the counter), so
  the loops take fuel, one unit for each turn; \<open>None\<close> is a loop that has not stopped yet.
\<close>

text \<open>
  \<^verbatim>\<open>value_function = np.zeros(env.world.size) if value_function is None else value_function\<close>,
  the first line of both controllers.
\<close>

definition default_value_function :: "heap \<Rightarrow> env \<Rightarrow> vref option \<Rightarrow> vref \<times> heap" where
  "default_value_function h env value_function =
     (case value_function of None \<Rightarrow> np_zeros h (world_size env) | Some r \<Rightarrow> (r, h))"

text \<open>
  One turn of the loop of \<^verbatim>\<open>policy_iteration\<close> up to the tests: the sweep, \<^verbatim>\<open>delta\<close>, the
  improvement. It answers with \<^verbatim>\<open>policy_value\<close>, \<^verbatim>\<open>delta\<close>, \<^verbatim>\<open>greedy_policy\<close> and the store.
\<close>

definition policy_iteration_body ::
  "heap \<Rightarrow> mref \<Rightarrow> env \<Rightarrow> real \<Rightarrow> vref \<Rightarrow> py_error + vref \<times> real \<times> mref \<times> heap" where
  "policy_iteration_body h policy env discount_factor value_function =
     (case single_step_policy_evaluation h policy env discount_factor (Some value_function) of
        Inl e \<Rightarrow> Inl e
      | Inr (policy_value, h1) \<Rightarrow>
         (case np_subtract (vecs h1 ! value_function) (vecs h1 ! policy_value) of
            Inl e \<Rightarrow> Inl e
          | Inr diff \<Rightarrow>
             (case np_amax diff of
                Inl e \<Rightarrow> Inl e
              | Inr delta \<Rightarrow>
                 (case greedy_policy_from_value_function h1 policy env policy_value discount_factor of
                    Inl e \<Rightarrow> Inl e
                  | Inr (greedy_policy, h2) \<Rightarrow> Inr (policy_value, delta, greedy_policy, h2)))))"

fun policy_iteration_loop ::
  "nat \<Rightarrow> heap \<Rightarrow> mref \<Rightarrow> env \<Rightarrow> real \<Rightarrow> int \<Rightarrow> real \<Rightarrow> vref \<Rightarrow> int
     \<Rightarrow> (py_error + iteration_result) option" where
  "policy_iteration_loop 0 h policy env threshold max_steps discount_factor value_function step_number = None"
| "policy_iteration_loop (Suc fuel) h policy env threshold max_steps discount_factor value_function step_number =
     (case policy_iteration_body h policy env discount_factor value_function of
        Inl e \<Rightarrow> Some (Inl e)
      | Inr (policy_value, delta, greedy_policy, h2) \<Rightarrow>
          if delta < threshold
          then Some (Inr \<lparr>returned_value = policy_value, returned_policy = greedy_policy,
                          final_heap = h2, warned = False, steps = step_number + 1,
                          last_delta = delta\<rparr>)
          else if step_number + 1 = max_steps
          then Some (Inr \<lparr>returned_value = policy_value, returned_policy = greedy_policy,
                          final_heap = h2, warned = True, steps = step_number + 1,
                          last_delta = delta\<rparr>)
          else policy_iteration_loop fuel h2 policy env threshold max_steps
                 discount_factor policy_value (step_number + 1))"

definition policy_iteration ::
  "nat \<Rightarrow> heap \<Rightarrow> mref \<Rightarrow> env \<Rightarrow> vref option \<Rightarrow> real \<Rightarrow> int \<Rightarrow> real
     \<Rightarrow> (py_error + iteration_result) option" where
  "policy_iteration fuel h policy env value_function threshold max_steps discount_factor =
     (case default_value_function h env value_function of
        (v, h1) \<Rightarrow> policy_iteration_loop fuel h1 policy env threshold max_steps discount_factor v 0)"

text \<open>
  The block under \<^verbatim>\<open>if delta < threshold\<close> in \<^verbatim>\<open>value_iteration\<close>, with the branch it
  takes: the \<^verbatim>\<open>break\<close>, the \<^verbatim>\<open>else\<close> that adopts the new policy, or no check at all.
  It answers with the policy the loop goes on with.
\<close>

datatype vi_branch = Converged | Adopted | Skipped

definition check_policy ::
  "heap \<Rightarrow> mref \<Rightarrow> env \<Rightarrow> vref \<Rightarrow> real \<Rightarrow> real \<Rightarrow> real
     \<Rightarrow> py_error + vi_branch \<times> mref \<times> heap" where
  "check_policy h greedy_policy env policy_value discount_factor delta threshold =
     (if delta < threshold
      then (case greedy_policy_from_value_function h greedy_policy env policy_value discount_factor of
              Inl e \<Rightarrow> Inl e
            | Inr (new_policy, h') \<Rightarrow>
                if np_all (mats h' ! greedy_policy) = np_all (mats h' ! new_policy)
                then Inr (Converged, greedy_policy, h')
                else Inr (Adopted, new_policy, h'))
      else Inr (Skipped, greedy_policy, h))"

text \<open>
  One turn of the loop of \<^verbatim>\<open>value_iteration\<close> up to the tests on the branch and the budget.
\<close>

definition value_iteration_body ::
  "heap \<Rightarrow> mref \<Rightarrow> env \<Rightarrow> real \<Rightarrow> real \<Rightarrow> vref
     \<Rightarrow> py_error + vref \<times> real \<times> vi_branch \<times> mref \<times> heap" where
  "value_iteration_body h greedy_policy env threshold discount_factor value_function =
     (case single_step_policy_evaluation h greedy_policy env discount_factor (Some value_function) of
        Inl e \<Rightarrow> Inl e
      | Inr (policy_value, h1) \<Rightarrow>
         (case np_subtract (vecs h1 ! value_function) (vecs h1 ! policy_value) of
            Inl e \<Rightarrow> Inl e
          | Inr diff \<Rightarrow>
             (case np_amax diff of
                Inl e \<Rightarrow> Inl e
              | Inr delta \<Rightarrow>
                 (case check_policy h1 greedy_policy env policy_value discount_factor delta threshold of
                    Inl e \<Rightarrow> Inl e
                  | Inr (branch, greedy_policy', h2) \<Rightarrow>
                      Inr (policy_value, delta, branch, greedy_policy', h2)))))"

fun value_iteration_loop ::
  "nat \<Rightarrow> heap \<Rightarrow> mref \<Rightarrow> env \<Rightarrow> real \<Rightarrow> int \<Rightarrow> real \<Rightarrow> vref \<Rightarrow> int
     \<Rightarrow> (py_error + iteration_result) option" where
  "value_iteration_loop 0 h greedy_policy env threshold max_steps discount_factor value_function step_number = None"
| "value_iteration_loop (Suc fuel) h greedy_policy env threshold max_steps discount_factor value_function step_number =
     (case value_iteration_body h greedy_policy env threshold discount_factor value_function of
        Inl e \<Rightarrow> Some (Inl e)
      | Inr (policy_value, delta, branch, greedy_policy', h2) \<Rightarrow>
          if branch = Converged
          then Some (Inr \<lparr>returned_value = policy_value, returned_policy = greedy_policy',
                          final_heap = h2, warned = False, steps = step_number,
                          last_delta = delta\<rparr>)
          else if step_number + 1 = max_steps
          then Some (Inr \<lparr>returned_value = policy_value, returned_policy = greedy_policy',
                          final_heap = h2, warned = True, steps = step_number + 1,
                          last_delta = delta\<rparr>)
          else value_iteration_loop fuel h2 greedy_policy' env threshold max_steps
                 discount_factor policy_value (step_number + 1))"

definition value_iteration ::
  "nat \<Rightarrow> heap \<Rightarrow> mref \<Rightarrow> env \<Rightarrow> vref option \<Rightarrow> real \<Rightarrow> int \<Rightarrow> real
     \<Rightarrow> (py_error + iteration_result) option" where
  "value_iteration fuel h policy env value_function threshold max_steps discount_factor =
     (case default_value_function h env value_function of
        (v, h1) \<Rightarrow> value_iteration_loop fuel h1 policy env threshold max_steps discount_factor v 0)"

text \<open>
  The loops unrolled: turn \<open>k\<close> of a controller, counted from 0, is its loop body run on
  what the turns before it left (the store, the value function and, in
  \<^verbatim>\<open>value_iteration\<close>, the policy), whatever the tests in between decided. A turn has not
  converged when it returns with a \<^verbatim>\<open>delta\<close> that is not below the threshold.
\<close>

fun policy_iteration_turn ::
  "nat \<Rightarrow> heap \<Rightarrow> mref \<Rightarrow> env \<Rightarrow> real \<Rightarrow> vref \<Rightarrow> py_error + vref \<times> real \<times> mref \<times> heap" where
  "policy_iteration_turn 0 h policy env discount_factor value_function =
     policy_iteration_body h policy env discount_factor value_function"
| "policy_iteration_turn (Suc k) h policy env discount_factor value_function =
     (case policy_iteration_body h policy env discount_factor value_function of
        Inl e \<Rightarrow> Inl e
      | Inr (policy_value, delta, greedy_policy, h2) \<Rightarrow>
          policy_iteration_turn k h2 policy env discount_factor policy_value)"

fun value_iteration_turn ::
  "nat \<Rightarrow> heap \<Rightarrow> mref \<Rightarrow> env \<Rightarrow> real \<Rightarrow> real \<Rightarrow> vref
     \<Rightarrow> py_error + vref \<times> real \<times> vi_branch \<times> mref \<times> heap" where
  "value_iteration_turn 0 h greedy_policy env threshold discount_factor value_function =
     value_iteration_body h greedy_policy env threshold discount_factor value_function"
| "value_iteration_turn (Suc k) h greedy_policy env threshold discount_factor value_function =
     (case value_iteration_body h greedy_policy env threshold discount_factor value_function of
        Inl e \<Rightarrow> Inl e
      | Inr (policy_value, delta, branch, greedy_policy', h2) \<Rightarrow>
          value_iteration_turn k h2 greedy_policy' env threshold discount_factor policy_value)"

definition not_converged :: "real \<Rightarrow> py_error + vref \<times> real \<times> 'a \<Rightarrow> bool" where
  "not_converged threshold turn =
     (case turn of Inl e \<Rightarrow> False | Inr (policy_value, delta, rest) \<Rightarrow> \<not> delta < threshold)"


subsection \<open>What one sweep and one improvement compute\<close>

text \<open>
  The right-hand sides of the two updates, written once, over plain lists: the backup of
  one state by the evaluator, and the value the improver gives to one action of one state.
  \<open>eval_ok\<close> and \<open>greedy_ok\<close> say that the reads of one state stay inside the arrays.
\<close>

definition bellman_backup :: "real list list \<Rightarrow> env \<Rightarrow> real \<Rightarrow> real list \<Rightarrow> nat \<Rightarrow> real" where
  "bellman_backup pol env discount_factor value s =
     reward_matrix env ! s +
     (\<Sum>a<length (pol ! s). pol ! s ! a * discount_factor * np_at value (fst (look_step_ahead env s a)))"

definition eval_ok :: "real list list \<Rightarrow> env \<Rightarrow> nat \<Rightarrow> nat \<Rightarrow> bool" where
  "eval_ok pol env n s \<longleftrightarrow>
     s < length (reward_matrix env) \<and> s < length pol \<and>
     (\<forall>a<length (pol ! s). np_valid n (fst (look_step_ahead env s a)))"

definition action_value :: "real list \<Rightarrow> env \<Rightarrow> real \<Rightarrow> real list \<Rightarrow> nat \<Rightarrow> nat \<Rightarrow> real" where
  "action_value row env discount_factor value s a =
     (case look_step_ahead env s a of
        (next_state, reward, done) \<Rightarrow> row ! a * (reward + discount_factor * np_at value next_state))"

definition greedy_ok :: "real list list \<Rightarrow> env \<Rightarrow> nat \<Rightarrow> nat \<Rightarrow> nat \<Rightarrow> bool" where
  "greedy_ok pol env n s a \<longleftrightarrow>
     s < length pol \<and> a < length (pol ! s) \<and> np_valid n (fst (look_step_ahead env s a))"

text \<open>
  The row the improver writes for one state, from the row it finds there, and the
  condition under which it gets that far: the reads stay inside the arrays, there is at
  least one action, and the new row fits the old one (or is broadcast, having length 1).
\<close>

definition improved_row :: "real list \<Rightarrow> env \<Rightarrow> real \<Rightarrow> real list \<Rightarrow> nat \<Rightarrow> real list" where
  "improved_row row env discount_factor value s =
     (let action_values = map (action_value row env discount_factor value s) [0..<action_n env];
          new_row = greedy_row (np_where_eq action_values (Max (set action_values))) (action_n env)
      in if length new_row = length row then new_row else replicate (length row) (hd new_row))"

definition greedy_state_ok :: "real list list \<Rightarrow> env \<Rightarrow> nat \<Rightarrow> nat \<Rightarrow> bool" where
  "greedy_state_ok pol env n s \<longleftrightarrow>
     (\<forall>a<action_n env. greedy_ok pol env n s a) \<and> 0 < action_n env \<and>
     (action_n env = length (pol ! s) \<or> action_n env = 1)"

subsection \<open>The improver on IEEE numbers\<close>

text \<open>
  The store above holds exact reals. A \<^verbatim>\<open>float64\<close> array also holds the two infinities and
  NaN, and numpy computes with them without raising. The numbers below keep the finite
  ones exact (no rounding, no overflow) and add these three, with the arithmetic and the
  comparisons of IEEE 754: NaN is absorbing, \<open>inf - inf\<close> and \<open>0 * inf\<close> are NaN, and NaN
  is equal to nothing, itself included.
\<close>

datatype fl = Num real | PInf | NInf | NaN

fun fl_add :: "fl \<Rightarrow> fl \<Rightarrow> fl" where
  "fl_add NaN y = NaN"
| "fl_add x NaN = NaN"
| "fl_add PInf NInf = NaN"
| "fl_add NInf PInf = NaN"
| "fl_add PInf y = PInf"
| "fl_add x PInf = PInf"
| "fl_add NInf y = NInf"
| "fl_add x NInf = NInf"
| "fl_add (Num x) (Num y) = Num (x + y)"

text \<open>The sign of a product with an infinity; a zero factor gives NaN.\<close>

definition fl_signed_inf :: "real \<Rightarrow> fl" where
  "fl_signed_inf x = (if x = 0 then NaN else if 0 < x then PInf else NInf)"

fun fl_mul :: "fl \<Rightarrow> fl \<Rightarrow> fl" where
  "fl_mul NaN y = NaN"
| "fl_mul x NaN = NaN"
| "fl_mul (Num x) (Num y) = Num (x * y)"
| "fl_mul (Num x) PInf = fl_signed_inf x"
| "fl_mul (Num x) NInf = fl_signed_inf (- x)"
| "fl_mul PInf (Num y) = fl_signed_inf y"
| "fl_mul NInf (Num y) = fl_signed_inf (- y)"
| "fl_mul PInf PInf = PInf"
| "fl_mul NInf NInf = PInf"
| "fl_mul PInf NInf = NInf"
| "fl_mul NInf PInf = NInf"

text \<open>\<^verbatim>\<open>==\<close> and \<^verbatim>\<open><\<close> on floats: both are false as soon as one side is NaN.\<close>

definition fl_eq :: "fl \<Rightarrow> fl \<Rightarrow> bool" where
  "fl_eq x y = (x \<noteq> NaN \<and> y \<noteq> NaN \<and> x = y)"

fun fl_less :: "fl \<Rightarrow> fl \<Rightarrow> bool" where
  "fl_less NaN y = False"
| "fl_less x NaN = False"
| "fl_less x NInf = False"
| "fl_less NInf y = True"
| "fl_less PInf y = False"
| "fl_less (Num x) PInf = True"
| "fl_less (Num x) (Num y) = (x < y)"

text \<open>\<^verbatim>\<open>np.amax\<close> on floats: the largest element, and NaN as soon as one element is NaN.\<close>

definition fl_max :: "fl \<Rightarrow> fl \<Rightarrow> fl" where
  "fl_max x y = (if x = NaN \<or> y = NaN then NaN else if fl_less x y then y else x)"

fun np_amax_ieee :: "fl list \<Rightarrow> py_error + fl" where
  "np_amax_ieee [] = Inl ValueError"
| "np_amax_ieee (x # xs) = Inr (fold fl_max xs x)"

text \<open>\<^verbatim>\<open>np.where(action_values == m)[0]\<close> with the comparison of floats.\<close>

definition np_where_eq_ieee :: "fl list \<Rightarrow> fl \<Rightarrow> nat list" where
  "np_where_eq_ieee action_values m =
     filter (\<lambda>a. fl_eq (action_values ! a) m) [0..<length action_values]"

text \<open>
  \<^verbatim>\<open>policy[state] = row\<close> on a matrix passed by value: the matrix with that row replaced,
  under the same rules as \<open>mat_set_row\<close>.
\<close>

definition set_row_ieee :: "fl list list \<Rightarrow> int \<Rightarrow> fl list \<Rightarrow> py_error + fl list list" where
  "set_row_ieee policy i row =
     (case np_index (length policy) i of
        Inl e \<Rightarrow> Inl e
      | Inr k \<Rightarrow>
          if length row = length (policy ! k) then Inr (policy[k := row])
          else if length row = 1
          then Inr (policy[k := replicate (length (policy ! k)) (hd row)])
          else Inl ValueError)"

text \<open>
  \<^verbatim>\<open>greedy_policy_from_value_function\<close> once more, line by line as above, on a policy and a
  value function of floats. The policy is passed and handed back as a value: what happens
  to the caller's array is the matter of the store model, not of this one. The reward of a
  transition is a finite number; the discount factor is any float.
\<close>

fun greedy_actions_ieee ::
  "fl list list \<Rightarrow> env \<Rightarrow> fl list \<Rightarrow> fl \<Rightarrow> nat \<Rightarrow> nat list \<Rightarrow> fl list \<Rightarrow> py_error + fl list" where
  "greedy_actions_ieee policy env value_function discount_factor state [] action_values =
     Inr action_values"
| "greedy_actions_ieee policy env value_function discount_factor state (action # rest) action_values =
     (case look_step_ahead env state action of (next_state, reward, done) \<Rightarrow>
       (case np_getitem policy (int state) of Inl e \<Rightarrow> Inl e | Inr row \<Rightarrow>
         (case np_getitem row (int action) of Inl e \<Rightarrow> Inl e | Inr p \<Rightarrow>
           (case np_getitem value_function next_state of Inl e \<Rightarrow> Inl e | Inr x \<Rightarrow>
             greedy_actions_ieee policy env value_function discount_factor state rest
               (action_values[action := fl_add (action_values ! action)
                  (fl_mul p (fl_add (Num reward) (fl_mul discount_factor x)))])))))"

fun greedy_states_ieee ::
  "fl list list \<Rightarrow> env \<Rightarrow> fl list \<Rightarrow> fl \<Rightarrow> nat list \<Rightarrow> py_error + fl list list" where
  "greedy_states_ieee policy env value_function discount_factor [] = Inr policy"
| "greedy_states_ieee policy env value_function discount_factor (state # rest) =
     (case greedy_actions_ieee policy env value_function discount_factor state
             [0..<action_n env] (replicate (action_n env) (Num 0)) of
        Inl e \<Rightarrow> Inl e
      | Inr action_values \<Rightarrow>
         (case np_amax_ieee action_values of Inl e \<Rightarrow> Inl e | Inr m \<Rightarrow>
           (case set_row_ieee policy (int state)
                   (map Num (greedy_row (np_where_eq_ieee action_values m) (length action_values))) of
              Inl e \<Rightarrow> Inl e
            | Inr policy' \<Rightarrow> greedy_states_ieee policy' env value_function discount_factor rest)))"

definition greedy_policy_from_value_function_ieee ::
  "fl list list \<Rightarrow> env \<Rightarrow> fl list \<Rightarrow> fl \<Rightarrow> py_error + fl list list" where
  "greedy_policy_from_value_function_ieee policy env value_function discount_factor =
     greedy_states_ieee policy env value_function discount_factor [0..<world_size env]"

text \<open>
  The action values of one state on floats, written once; the sum of a row, as \<^verbatim>\<open>sum\<close>
  adds it up from the left; and what it is for a float to be no negative number.
\<close>

definition action_value_ieee :: "fl list \<Rightarrow> env \<Rightarrow> fl \<Rightarrow> fl list \<Rightarrow> nat \<Rightarrow> nat \<Rightarrow> fl" where
  "action_value_ieee row env discount_factor value s a =
     (case look_step_ahead env s a of
        (next_state, reward, done) \<Rightarrow>
          fl_add (Num 0)
            (fl_mul (row ! a) (fl_add (Num reward) (fl_mul discount_factor (np_at value next_state)))))"

definition action_values_ieee :: "fl list \<Rightarrow> env \<Rightarrow> fl \<Rightarrow> fl list \<Rightarrow> nat \<Rightarrow> fl list" where
  "action_values_ieee row env discount_factor value s =
     map (action_value_ieee row env discount_factor value s) [0..<action_n env]"

definition fl_sum :: "fl list \<Rightarrow> fl" where
  "fl_sum xs = fold (\<lambda>x acc. fl_add acc x) xs (Num 0)"

fun fl_nonneg :: "fl \<Rightarrow> bool" where
  "fl_nonneg (Num x) = (0 \<le> x)"
| "fl_nonneg PInf = True"
| "fl_nonneg NInf = False"
| "fl_nonneg NaN = False"


subsection \<open>A small world for concrete runs\<close>

text \<open>
  Three cells in a line, the last one terminal; action 0 moves left (and stays at the left
  end), action 1 moves right. Every move from a cell that is not terminal costs 1.
\<close>

definition line_env :: env where
  "line_env = \<lparr>world_size = 3, action_n = 2, reward_matrix = [-1, -1, 0],
     look_step_ahead = (\<lambda>s a. if s = 2 then (2, 0, True)
                               else if a = 0 then (int (s - 1), -1, False)
                               else (int s + 1, -1, s = 1))\<rparr>"

text \<open>A store with one value function and one policy, the uniform one.\<close>

definition line_heap :: heap where
  "line_heap = \<lparr>vecs = [[0, -2, 0]], mats = [[[1/2, 1/2], [1/2, 1/2], [1/2, 1/2]]]\<rparr>"

text \<open>
  A store whose value function is a fixed point of the evaluator under the uniform policy,
  and two copies of the line world that differ from it in what a transition reports: one
  in the reward and the terminal flag, one in the terminal flag alone.
\<close>

definition fixed_heap :: heap where
  "fixed_heap = \<lparr>vecs = [[-6, -4, 0]], mats = [[[1/2, 1/2], [1/2, 1/2], [1/2, 1/2]]]\<rparr>"

definition line_env_other :: env where
  "line_env_other = line_env\<lparr>look_step_ahead :=
     (\<lambda>s a. case look_step_ahead line_env s a of
               (next_state, reward, done) \<Rightarrow> (next_state, reward + 10, \<not> done))\<rparr>"

definition line_env_other_done :: env where
  "line_env_other_done = line_env\<lparr>look_step_ahead :=
     (\<lambda>s a. case look_step_ahead line_env s a of
               (next_state, reward, done) \<Rightarrow> (next_state, reward, \<not> done))\<rparr>"

text \<open>The store of the line world after one sweep and one improvement.\<close>

definition line_heap_improved :: heap where
  "line_heap_improved =
     \<lparr>vecs = [[0, -2, 0], [-2, -1, 0]], mats = [[[0, 1], [0, 1], [1/2, 1/2]]]\<rparr>"

text \<open>
  The stores of two runs of two turns from \<open>line_heap\<close>: after the second turn of
  \<^verbatim>\<open>policy_iteration\<close>, and after one and two sweeps of \<^verbatim>\<open>value_iteration\<close> that change no
  policy. And the uniform policy as a matrix of floats.
\<close>

definition line_heap_second :: heap where
  "line_heap_second =
     \<lparr>vecs = [[0, -2, 0], [-2, -1, 0], [-2, -1, 0]], mats = [[[1, 0], [1, 0], [1/2, 1/2]]]\<rparr>"

definition line_heap_swept :: heap where
  "line_heap_swept =
     \<lparr>vecs = [[0, -2, 0], [-2, -1, 0]], mats = [[[1/2, 1/2], [1/2, 1/2], [1/2, 1/2]]]\<rparr>"

definition line_heap_swept_twice :: heap where
  "line_heap_swept_twice =
     \<lparr>vecs = [[0, -2, 0], [-2, -1, 0], [-5/2, -2, 0]],
      mats = [[[1/2, 1/2], [1/2, 1/2], [1/2, 1/2]]]\<rparr>"

definition uniform_ieee :: "fl list list" where
  "uniform_ieee = [[Num (1/2), Num (1/2)], [Num (1/2), Num (1/2)], [Num (1/2), Num (1/2)]]"


section \<open>Properties\<close>

subsection \<open>Indexing\<close>

lemma np_index_int: "np_index n (int s) = (if s < n then Inr s else Inl IndexError)"
  by (simp add: np_index_def)

lemma np_index_Inr:
  "np_index n i = Inr k \<longleftrightarrow> np_valid n i \<and> k = (if 0 \<le> i then nat i else nat (int n + i))"
  by (auto simp: np_index_def np_valid_def)

lemma np_index_Inl: "np_index n i = Inl e \<longleftrightarrow> \<not> np_valid n i \<and> e = IndexError"
  by (auto simp: np_index_def np_valid_def)

lemma np_getitem_Inr: "np_getitem xs i = Inr x \<longleftrightarrow> np_valid (length xs) i \<and> x = np_at xs i"
  by (auto simp: np_getitem_def np_index_def np_valid_def np_at_def)

lemma np_getitem_valid: "np_valid (length xs) i \<Longrightarrow> np_getitem xs i = Inr (np_at xs i)"
  by (simp add: np_getitem_Inr)

lemma np_getitem_invalid: "\<not> np_valid (length xs) i \<Longrightarrow> np_getitem xs i = Inl IndexError"
  by (auto simp: np_getitem_def np_index_def np_valid_def)

lemma np_getitem_int: "np_getitem xs (int s) = (if s < length xs then Inr (xs ! s) else Inl IndexError)"
  by (simp add: np_getitem_def np_index_int)

lemma vec_get_int: "vec_get h r (int s) = (if s < length (vecs h ! r) then Inr (vecs h ! r ! s) else Inl IndexError)"
  by (simp add: vec_get_def np_getitem_int)

lemma vec_set_int: "vec_set h r (int s) x =
   (if s < length (vecs h ! r) then Inr (h\<lparr>vecs := (vecs h)[r := (vecs h ! r)[s := x]]\<rparr>) else Inl IndexError)"
  by (simp add: vec_set_def np_index_int)

lemma eval_actions_Inr:
  assumes "v \<noteq> v_new" "v_new < length (vecs h)" "state < length (vecs h ! v_new)"
  shows "eval_actions h env g v v_new state a row = Inr h' \<longleftrightarrow>
     (\<forall>i<length row. np_valid (length (vecs h ! v)) (fst (look_step_ahead env state (a + i)))) \<and>
     h' = h\<lparr>vecs := (vecs h)[v_new := (vecs h ! v_new)[state := vecs h ! v_new ! state +
            (\<Sum>i<length row. row ! i * (g * np_at (vecs h ! v) (fst (look_step_ahead env state (a + i)))))]]\<rparr>"
  using assms
proof (induction row arbitrary: h a)
  case Nil
  then show ?case by auto
next
  case (Cons p ps)
  obtain ns rw dn where st: "look_step_ahead env state a = (ns, rw, dn)"
    by (cases "look_step_ahead env state a") auto
  show ?case
  proof (cases "np_valid (length (vecs h ! v)) ns")
    case False
    then have "vec_get h v ns = Inl IndexError"
      by (simp add: vec_get_def np_getitem_invalid)
    moreover have "\<not> (\<forall>i<length (p # ps). np_valid (length (vecs h ! v)) (fst (look_step_ahead env state (a + i))))"
      using False st by (auto intro: exI[of _ 0])
    ultimately show ?thesis using st by simp
  next
    case True
    let ?x = "np_at (vecs h ! v) ns"
    let ?h1 = "h\<lparr>vecs := (vecs h)[v_new := (vecs h ! v_new)[state := vecs h ! v_new ! state + p * (g * ?x)]]\<rparr>"
    have g: "vec_get h v ns = Inr ?x" using True by (simp add: vec_get_def np_getitem_valid)
    have step: "eval_actions h env g v v_new state a (p # ps) = eval_actions ?h1 env g v v_new state (Suc a) ps"
      using st g Cons.prems by (simp add: vec_get_int vec_set_int)
    have ih: "eval_actions ?h1 env g v v_new state (Suc a) ps = Inr h' \<longleftrightarrow>
     (\<forall>i<length ps. np_valid (length (vecs ?h1 ! v)) (fst (look_step_ahead env state (Suc a + i)))) \<and>
     h' = ?h1\<lparr>vecs := (vecs ?h1)[v_new := (vecs ?h1 ! v_new)[state := vecs ?h1 ! v_new ! state +
            (\<Sum>i<length ps. ps ! i * (g * np_at (vecs ?h1 ! v) (fst (look_step_ahead env state (Suc a + i)))))]]\<rparr>"
      by (rule Cons.IH) (use Cons.prems in simp_all)
    have all: "(\<forall>i<length (p # ps). np_valid (length (vecs h ! v)) (fst (look_step_ahead env state (a + i))))
        \<longleftrightarrow> (\<forall>i<length ps. np_valid (length (vecs h ! v)) (fst (look_step_ahead env state (Suc a + i))))"
      using True st by (auto simp: less_Suc_eq_0_disj)
    have sum_eq: "(\<Sum>i<Suc (length ps). (p # ps) ! i * (g * np_at (vecs h ! v) (fst (look_step_ahead env state (a + i)))))
        = p * (g * ?x) + (\<Sum>i<length ps. ps ! i * (g * np_at (vecs h ! v) (fst (look_step_ahead env state (Suc a + i)))))"
      using st by (simp add: sum.lessThan_Suc_shift del: sum.lessThan_Suc)
    show ?thesis
      unfolding step ih all using Cons.prems
      by (simp add: sum_eq add.assoc del: sum.lessThan_Suc)
  qed
qed

lemma eval_states_Inr:
  assumes "v \<noteq> v_new" "v_new < length (vecs h)" "distinct ss"
    "\<forall>s\<in>set ss. s < length (vecs h ! v_new)"
  shows "eval_states h policy env g v v_new ss = Inr h' \<longleftrightarrow>
     (\<forall>s\<in>set ss. eval_ok (mats h ! policy) env (length (vecs h ! v)) s) \<and>
     h' = h\<lparr>vecs := (vecs h)[v_new :=
            map (\<lambda>s. if s \<in> set ss
                     then vecs h ! v_new ! s + bellman_backup (mats h ! policy) env g (vecs h ! v) s
                     else vecs h ! v_new ! s) [0..<length (vecs h ! v_new)]]\<rparr>"
  using assms
proof (induction ss arbitrary: h)
  case Nil
  then show ?case by (auto simp: map_nth)
next
  case (Cons state rest)
  let ?w = "vecs h ! v_new"
  let ?pol = "mats h ! policy"
  show ?case
  proof (cases "state < length (reward_matrix env) \<and> state < length ?pol")
    case False
    then have "eval_states h policy env g v v_new (state # rest) = Inl IndexError"
      using Cons.prems by (auto simp: np_getitem_int vec_get_int vec_set_int)
    moreover have "\<not> eval_ok ?pol env (length (vecs h ! v)) state"
      using False by (auto simp: eval_ok_def)
    ultimately show ?thesis by simp
  next
    case True
    let ?r = "reward_matrix env ! state"
    let ?h1 = "h\<lparr>vecs := (vecs h)[v_new := ?w[state := ?w ! state + ?r]]\<rparr>"
    let ?row = "?pol ! state"
    have step: "eval_states h policy env g v v_new (state # rest) =
       (case eval_actions ?h1 env g v v_new state 0 ?row of Inl e \<Rightarrow> Inl e
        | Inr h2 \<Rightarrow> eval_states h2 policy env g v v_new rest)"
      using True Cons.prems by (simp add: np_getitem_int vec_get_int vec_set_int)
    let ?S = "\<Sum>i<length ?row. ?row ! i * (g * np_at (vecs h ! v) (fst (look_step_ahead env state i)))"
    let ?h2 = "h\<lparr>vecs := (vecs h)[v_new := ?w[state := ?w ! state + bellman_backup ?pol env g (vecs h ! v) state]]\<rparr>"
    have inner: "eval_actions ?h1 env g v v_new state 0 ?row = Inr h2 \<longleftrightarrow>
        (\<forall>a<length ?row. np_valid (length (vecs h ! v)) (fst (look_step_ahead env state a))) \<and> h2 = ?h2" for h2
      using Cons.prems
      by (subst eval_actions_Inr) (simp_all add: bellman_backup_def add.assoc mult.assoc)
    show ?thesis
    proof (cases "\<forall>a<length ?row. np_valid (length (vecs h ! v)) (fst (look_step_ahead env state a))")
      case False
      then have "\<And>h2. eval_actions ?h1 env g v v_new state 0 ?row \<noteq> Inr h2"
        using inner by blast
      then have "eval_states h policy env g v v_new (state # rest) \<noteq> Inr h'"
        unfolding step by (auto split: sum.splits)
      moreover have "\<not> eval_ok ?pol env (length (vecs h ! v)) state"
        using False by (auto simp: eval_ok_def)
      ultimately show ?thesis by simp
    next
      case valid: True
      then have "eval_actions ?h1 env g v v_new state 0 ?row = Inr ?h2"
        using inner by blast
      then have step2: "eval_states h policy env g v v_new (state # rest) = eval_states ?h2 policy env g v v_new rest"
        unfolding step by simp
      have ok: "eval_ok ?pol env (length (vecs h ! v)) state"
        using True valid by (simp add: eval_ok_def)
      have ih: "eval_states ?h2 policy env g v v_new rest = Inr h' \<longleftrightarrow>
         (\<forall>s\<in>set rest. eval_ok (mats ?h2 ! policy) env (length (vecs ?h2 ! v)) s) \<and>
         h' = ?h2\<lparr>vecs := (vecs ?h2)[v_new :=
            map (\<lambda>s. if s \<in> set rest
                     then vecs ?h2 ! v_new ! s + bellman_backup (mats ?h2 ! policy) env g (vecs ?h2 ! v) s
                     else vecs ?h2 ! v_new ! s) [0..<length (vecs ?h2 ! v_new)]]\<rparr>"
        by (rule Cons.IH) (use Cons.prems in simp_all)
      have arr: "map (\<lambda>s. if s \<in> set rest
                     then (?w[state := ?w ! state + bellman_backup ?pol env g (vecs h ! v) state]) ! s + bellman_backup ?pol env g (vecs h ! v) s
                     else (?w[state := ?w ! state + bellman_backup ?pol env g (vecs h ! v) state]) ! s) [0..<length ?w]
           = map (\<lambda>s. if s \<in> set (state # rest)
                     then ?w ! s + bellman_backup ?pol env g (vecs h ! v) s
                     else ?w ! s) [0..<length ?w]"
        using Cons.prems by (auto simp: nth_list_update)
      show ?thesis
        unfolding step2 ih using Cons.prems ok by (simp add: arr cong: if_cong)
    qed
  qed
qed

lemma single_step_Inr:
  assumes "v < length (vecs h)"
  shows "single_step_policy_evaluation h policy env g (Some v) = Inr (r, h') \<longleftrightarrow>
     (\<forall>s<world_size env. eval_ok (mats h ! policy) env (length (vecs h ! v)) s) \<and>
     r = length (vecs h) \<and>
     h' = h\<lparr>vecs := vecs h @ [map (bellman_backup (mats h ! policy) env g (vecs h ! v)) [0..<world_size env]]\<rparr>"
proof -
  let ?N = "world_size env"
  let ?h2 = "h\<lparr>vecs := vecs h @ [replicate ?N 0]\<rparr>"
  let ?r = "length (vecs h)"
  have unf: "single_step_policy_evaluation h policy env g (Some v) =
     (case eval_states ?h2 policy env g v ?r [0..<?N] of Inl e \<Rightarrow> Inl e | Inr h3 \<Rightarrow> Inr (?r, h3))"
    by (simp add: single_step_policy_evaluation_def np_zeros_def)
  have ch: "eval_states ?h2 policy env g v ?r [0..<?N] = Inr h3 \<longleftrightarrow>
     (\<forall>s\<in>set [0..<?N]. eval_ok (mats ?h2 ! policy) env (length (vecs ?h2 ! v)) s) \<and>
     h3 = ?h2\<lparr>vecs := (vecs ?h2)[?r :=
            map (\<lambda>s. if s \<in> set [0..<?N]
                     then vecs ?h2 ! ?r ! s + bellman_backup (mats ?h2 ! policy) env g (vecs ?h2 ! v) s
                     else vecs ?h2 ! ?r ! s) [0..<length (vecs ?h2 ! ?r)]]\<rparr>" for h3
    by (rule eval_states_Inr) (use assms in simp_all)
  have arr: "map (\<lambda>s. if s < ?N
                     then bellman_backup (mats h ! policy) env g (vecs h ! v) s
                     else replicate ?N 0 ! s) [0..<?N]
      = map (bellman_backup (mats h ! policy) env g (vecs h ! v)) [0..<?N]"
    by simp
  have ch': "eval_states ?h2 policy env g v ?r [0..<?N] = Inr h3 \<longleftrightarrow>
     (\<forall>s<?N. eval_ok (mats h ! policy) env (length (vecs h ! v)) s) \<and>
     h3 = h\<lparr>vecs := vecs h @ [map (bellman_backup (mats h ! policy) env g (vecs h ! v)) [0..<?N]]\<rparr>" for h3
    unfolding ch using assms by (simp add: nth_append arr Ball_def cong: if_cong)
  show ?thesis
    unfolding unf using ch' by (auto split: sum.splits)
qed

lemma mat_get_int:
  "mat_get h r (int s) (int a) =
     (if s < length (mats h ! r) \<and> a < length (mats h ! r ! s) then Inr (mats h ! r ! s ! a)
      else Inl IndexError)"
  by (simp add: mat_get_def np_getitem_int)

lemma greedy_actions_Inr:
  assumes "distinct as" "\<forall>a\<in>set as. a < length avs"
  shows "greedy_actions h policy env vf g state as avs = Inr avs' \<longleftrightarrow>
     (\<forall>a\<in>set as. greedy_ok (mats h ! policy) env (length (vecs h ! vf)) state a) \<and>
     avs' = map (\<lambda>a. if a \<in> set as
                     then avs ! a + action_value (mats h ! policy ! state) env g (vecs h ! vf) state a
                     else avs ! a) [0..<length avs]"
  using assms
proof (induction as arbitrary: avs)
  case Nil
  then show ?case by (auto simp: map_nth)
next
  case (Cons a rest)
  let ?pol = "mats h ! policy"
  let ?v = "vecs h ! vf"
  obtain ns rw dn where st: "look_step_ahead env state a = (ns, rw, dn)"
    by (cases "look_step_ahead env state a") auto
  show ?case
  proof (cases "greedy_ok ?pol env (length ?v) state a")
    case False
    then have "greedy_actions h policy env vf g state (a # rest) avs = Inl IndexError"
      using st by (auto simp: greedy_ok_def mat_get_int vec_get_def np_getitem_invalid split: sum.splits)
    then show ?thesis using False by simp
  next
    case True
    let ?avs1 = "avs[a := avs ! a + action_value (?pol ! state) env g ?v state a]"
    have step: "greedy_actions h policy env vf g state (a # rest) avs =
        greedy_actions h policy env vf g state rest ?avs1"
      using True st by (simp add: greedy_ok_def mat_get_int vec_get_def np_getitem_valid action_value_def)
    have ih: "greedy_actions h policy env vf g state rest ?avs1 = Inr avs' \<longleftrightarrow>
     (\<forall>a\<in>set rest. greedy_ok ?pol env (length ?v) state a) \<and>
     avs' = map (\<lambda>b. if b \<in> set rest
                     then ?avs1 ! b + action_value (?pol ! state) env g ?v state b
                     else ?avs1 ! b) [0..<length ?avs1]"
      by (rule Cons.IH) (use Cons.prems in simp_all)
    have arr: "map (\<lambda>b. if b \<in> set rest
                     then ?avs1 ! b + action_value (?pol ! state) env g ?v state b
                     else ?avs1 ! b) [0..<length ?avs1]
        = map (\<lambda>b. if b \<in> set (a # rest)
                     then avs ! b + action_value (?pol ! state) env g ?v state b
                     else avs ! b) [0..<length avs]"
      using Cons.prems by (auto simp: nth_list_update)
    show ?thesis unfolding step ih arr using True by simp
  qed
qed

lemma upt3: "[0..<3] = [0, 1, 2]"
  by (simp add: upt_rec)

subsection \<open>The evaluator\<close>

text \<open>
  C1. A call of \<^verbatim>\<open>single_step_policy_evaluation\<close> that returns hands back an array at an
  address the store did not have before (the first free one), of length
  \<^verbatim>\<open>env.world.size\<close>, whose entry for every state \<open>s\<close> is
  \<open>reward_matrix[s] + \<Sum>a. policy[s][a] * discount_factor * v[next_state(s, a)]\<close>
  with \<open>v\<close> the value array as it was at the call: every state reads the same old
  array. No policy and no array that existed at the call is changed.
\<close>

theorem single_step_policy_evaluation_sweep:
  assumes "single_step_policy_evaluation h policy env discount_factor (Some v) = Inr (v_new, h')"
    and "v < length (vecs h)"
  shows "v_new = length (vecs h) \<and> length (vecs h') = Suc (length (vecs h)) \<and>
     length (vecs h' ! v_new) = world_size env \<and>
     (\<forall>s<world_size env. vecs h' ! v_new ! s =
        reward_matrix env ! s +
        (\<Sum>a<length (mats h ! policy ! s).
           mats h ! policy ! s ! a * discount_factor * np_at (vecs h ! v) (fst (look_step_ahead env s a)))) \<and>
     mats h' = mats h \<and> (\<forall>r<length (vecs h). vecs h' ! r = vecs h ! r)"
  using assms(1) unfolding single_step_Inr[OF assms(2)]
  by (simp add: nth_append bellman_backup_def)

lemma line_sweep:
  "single_step_policy_evaluation line_heap 0 line_env 1 (Some 0) =
     Inr (1, line_heap\<lparr>vecs := [[0, -2, 0], [-2, -1, 0]]\<rparr>)"
  by (simp add: single_step_policy_evaluation_def np_zeros_def line_heap_def line_env_def upt3
      vec_get_def vec_set_def np_getitem_def np_index_def numeral_3_eq_3)

theorem single_step_policy_evaluation_sweep_witness:
  "single_step_policy_evaluation line_heap 0 line_env 1 (Some 0) =
     Inr (1, line_heap\<lparr>vecs := [[0, -2, 0], [-2, -1, 0]]\<rparr>) \<and>
   (0::nat) < length (vecs line_heap) \<and>
   (1::nat) = length (vecs line_heap) \<and>
   vecs (line_heap\<lparr>vecs := [[0, -2, 0], [-2, -1, 0]]\<rparr>) ! 1 ! 0 =
     reward_matrix line_env ! 0 +
     (\<Sum>a<length (mats line_heap ! 0 ! 0).
        mats line_heap ! 0 ! 0 ! a * 1 * np_at (vecs line_heap ! 0) (fst (look_step_ahead line_env 0 a))) \<and>
   mats (line_heap\<lparr>vecs := [[0, -2, 0], [-2, -1, 0]]\<rparr>) = mats line_heap \<and>
   vecs (line_heap\<lparr>vecs := [[0, -2, 0], [-2, -1, 0]]\<rparr>) ! 0 = vecs line_heap ! 0"
proof -
  have valid: "(0::nat) < length (vecs line_heap)"
    by (simp add: line_heap_def)
  have state: "(0::nat) < world_size line_env"
    by (simp add: line_env_def)
  show ?thesis
    using single_step_policy_evaluation_sweep [OF line_sweep valid] line_sweep valid state
    by blast
qed

subsection \<open>The improver\<close>

lemma np_amax_Inr: "np_amax xs = Inr m \<longleftrightarrow> xs \<noteq> [] \<and> m = Max (set xs)"
  by (cases xs) (auto simp: Max.set_eq_fold[symmetric])

lemma mat_set_row_int:
  "mat_set_row h r (int s) row =
     (if s < length (mats h ! r)
      then if length row = length (mats h ! r ! s)
           then Inr (h\<lparr>mats := (mats h)[r := (mats h ! r)[s := row]]\<rparr>)
           else if length row = 1
           then Inr (h\<lparr>mats := (mats h)[r := (mats h ! r)[s := replicate (length (mats h ! r ! s)) (hd row)]]\<rparr>)
           else Inl ValueError
      else Inl IndexError)"
  by (simp add: mat_set_row_def np_index_int)

lemma length_greedy_row: "length (greedy_row ms n) = n"
  by (simp add: greedy_row_def)

lemma greedy_state_step:
  assumes "policy < length (mats h)"
  shows "greedy_states h policy env vf g (state # rest) =
     (if greedy_state_ok (mats h ! policy) env (length (vecs h ! vf)) state
      then greedy_states (h\<lparr>mats := (mats h)[policy := (mats h ! policy)[state :=
              improved_row (mats h ! policy ! state) env g (vecs h ! vf) state]]\<rparr>) policy env vf g rest
      else Inl (if (\<forall>a<action_n env. greedy_ok (mats h ! policy) env (length (vecs h ! vf)) state a)
                then ValueError else IndexError))"
proof -
  let ?n = "action_n env"
  let ?pol = "mats h ! policy"
  let ?v = "vecs h ! vf"
  let ?avs = "map (action_value (?pol ! state) env g ?v state) [0..<?n]"
  have acts: "greedy_actions h policy env vf g state [0..<?n] (replicate ?n 0) = Inr avs' \<longleftrightarrow>
     (\<forall>a<?n. greedy_ok ?pol env (length ?v) state a) \<and> avs' = ?avs" for avs'
    by (subst greedy_actions_Inr) (auto simp: Ball_def)
  show ?thesis
  proof (cases "\<forall>a<?n. greedy_ok ?pol env (length ?v) state a")
    case False
    then have "\<And>avs'. greedy_actions h policy env vf g state [0..<?n] (replicate ?n 0) \<noteq> Inr avs'"
      using acts by blast
    moreover have "greedy_actions h policy env vf g state as avs = Inl e \<Longrightarrow> e = IndexError" for as avs e
      by (induction as arbitrary: avs)
         (auto simp: mat_get_def vec_get_def np_getitem_def np_index_def split: sum.splits prod.splits if_splits)
    ultimately have "greedy_actions h policy env vf g state [0..<?n] (replicate ?n 0) = Inl IndexError"
      by (cases "greedy_actions h policy env vf g state [0..<?n] (replicate ?n 0)") auto
    moreover have "\<not> greedy_state_ok ?pol env (length ?v) state"
      using False by (simp add: greedy_state_ok_def)
    ultimately show ?thesis using False by simp
  next
    case True
    then have a: "greedy_actions h policy env vf g state [0..<?n] (replicate ?n 0) = Inr ?avs"
      using acts by blast
    show ?thesis
    proof (cases "?n = 0")
      case True
      then show ?thesis using a by (simp add: greedy_state_ok_def)
    next
      case False
      then have ne: "?avs \<noteq> []" by simp
      have m: "np_amax ?avs = Inr (Max (set ?avs))"
        using ne by (simp only: np_amax_Inr) simp
      have s: "state < length ?pol" "?n \<le> length (?pol ! state)"
        using True False by (auto simp: greedy_ok_def intro: leI dest: spec[of _ 0])
      show ?thesis
        using a m s False True
        by (auto simp: mat_set_row_int length_greedy_row improved_row_def greedy_state_ok_def Let_def)
    qed
  qed
qed

lemma greedy_states_Inr:
  assumes "policy < length (mats h)" "distinct ss"
  shows "greedy_states h policy env vf g ss = Inr h' \<longleftrightarrow>
     (\<forall>s\<in>set ss. greedy_state_ok (mats h ! policy) env (length (vecs h ! vf)) s) \<and>
     h' = h\<lparr>mats := (mats h)[policy :=
            map (\<lambda>s. if s \<in> set ss
                     then improved_row (mats h ! policy ! s) env g (vecs h ! vf) s
                     else mats h ! policy ! s) [0..<length (mats h ! policy)]]\<rparr>"
  using assms
proof (induction ss arbitrary: h)
  case Nil
  then show ?case by (auto simp: map_nth)
next
  case (Cons state rest)
  let ?pol = "mats h ! policy"
  let ?v = "vecs h ! vf"
  let ?h1 = "h\<lparr>mats := (mats h)[policy := ?pol[state := improved_row (?pol ! state) env g ?v state]]\<rparr>"
  show ?case
  proof (cases "greedy_state_ok ?pol env (length ?v) state")
    case False
    then show ?thesis
      using Cons.prems by (simp add: greedy_state_step del: greedy_states.simps)
  next
    case True
    then have step: "greedy_states h policy env vf g (state # rest) = greedy_states ?h1 policy env vf g rest"
      using Cons.prems by (simp add: greedy_state_step del: greedy_states.simps)
    have st: "state < length ?pol"
      using True by (auto simp: greedy_state_ok_def greedy_ok_def)
    have ih: "greedy_states ?h1 policy env vf g rest = Inr h' \<longleftrightarrow>
     (\<forall>s\<in>set rest. greedy_state_ok (mats ?h1 ! policy) env (length (vecs ?h1 ! vf)) s) \<and>
     h' = ?h1\<lparr>mats := (mats ?h1)[policy :=
            map (\<lambda>s. if s \<in> set rest
                     then improved_row (mats ?h1 ! policy ! s) env g (vecs ?h1 ! vf) s
                     else mats ?h1 ! policy ! s) [0..<length (mats ?h1 ! policy)]]\<rparr>"
      by (rule Cons.IH) (use Cons.prems in simp_all)
    let ?pol1 = "?pol[state := improved_row (?pol ! state) env g ?v state]"
    have p1: "mats ?h1 ! policy = ?pol1" "vecs ?h1 = vecs h"
      using Cons.prems by simp_all
    have ok: "greedy_state_ok ?pol1 env n s \<longleftrightarrow> greedy_state_ok ?pol env n s" if "s \<in> set rest" for s n
    proof -
      have "s \<noteq> state" using that Cons.prems by auto
      then have "?pol1 ! s = ?pol ! s" by simp
      then show ?thesis by (simp add: greedy_state_ok_def greedy_ok_def)
    qed
    have arr: "map (\<lambda>s. if s \<in> set rest
                     then improved_row (?pol1 ! s) env g ?v s
                     else ?pol1 ! s) [0..<length ?pol1]
        = map (\<lambda>s. if s \<in> set (state # rest)
                     then improved_row (?pol ! s) env g ?v s
                     else ?pol ! s) [0..<length ?pol]"
      using Cons.prems st by (auto simp: nth_list_update)
    show ?thesis
      unfolding step ih p1 arr using True ok by auto
  qed
qed

lemma greedy_Inr:
  assumes "policy < length (mats h)"
  shows "greedy_policy_from_value_function h policy env vf g = Inr (p', h') \<longleftrightarrow>
     (\<forall>s<world_size env. greedy_state_ok (mats h ! policy) env (length (vecs h ! vf)) s) \<and>
     p' = policy \<and>
     h' = h\<lparr>mats := (mats h)[policy :=
            map (\<lambda>s. if s < world_size env
                     then improved_row (mats h ! policy ! s) env g (vecs h ! vf) s
                     else mats h ! policy ! s) [0..<length (mats h ! policy)]]\<rparr>"
proof -
  have ch: "greedy_states h policy env vf g [0..<world_size env] = Inr h3 \<longleftrightarrow>
     (\<forall>s<world_size env. greedy_state_ok (mats h ! policy) env (length (vecs h ! vf)) s) \<and>
     h3 = h\<lparr>mats := (mats h)[policy :=
            map (\<lambda>s. if s < world_size env
                     then improved_row (mats h ! policy ! s) env g (vecs h ! vf) s
                     else mats h ! policy ! s) [0..<length (mats h ! policy)]]\<rparr>" for h3
    using greedy_states_Inr[OF assms, of "[0..<world_size env]" env vf g h3]
    by (simp add: Ball_def cong: if_cong)
  show ?thesis
    unfolding greedy_policy_from_value_function_def using ch by (auto split: sum.splits)
qed

lemma set_np_where_eq: "set (np_where_eq avs m) = {b. b < length avs \<and> avs ! b = m}"
  by (auto simp: np_where_eq_def)

lemma length_np_where_eq: "length (np_where_eq avs m) = card {b. b < length avs \<and> avs ! b = m}"
proof -
  have "distinct (np_where_eq avs m)" by (simp add: np_where_eq_def)
  then have "card (set (np_where_eq avs m)) = length (np_where_eq avs m)"
    by (rule distinct_card)
  then show ?thesis by (simp add: set_np_where_eq)
qed

lemma np_where_eq_Max_nonempty: "avs \<noteq> [] \<Longrightarrow> np_where_eq avs (Max (set avs)) \<noteq> []"
proof -
  assume "avs \<noteq> []"
  then have "Max (set avs) \<in> set avs" by (intro Max_in) auto
  then obtain b where "b < length avs" "avs ! b = Max (set avs)"
    by (auto simp: in_set_conv_nth)
  then have "b \<in> set (np_where_eq avs (Max (set avs)))"
    by (simp add: set_np_where_eq)
  then show ?thesis by auto
qed

lemma greedy_row_nth:
  "a < n \<Longrightarrow> greedy_row ms n ! a = (if a \<in> set ms then 1 / real (length ms) else 0)"
  by (simp add: greedy_row_def)

lemma greedy_row_nonneg: "x \<in> set (greedy_row ms n) \<Longrightarrow> 0 \<le> x"
  by (auto simp: greedy_row_def)

lemma sum_list_greedy_row:
  assumes "ms \<noteq> []" "distinct ms" "set ms \<subseteq> {..<n}"
  shows "sum_list (greedy_row ms n) = 1"
proof -
  let ?c = "1 / real (length ms)"
  have "sum_list (greedy_row ms n) = (\<Sum>a\<in>{0..<n}. if a \<in> set ms then ?c else 0)"
    unfolding greedy_row_def by (simp add: sum_list_distinct_conv_sum_set)
  also have "\<dots> = (\<Sum>a\<in>{0..<n} \<inter> set ms. ?c)"
    by (rule sum.inter_restrict[symmetric]) simp
  also have "{0..<n} \<inter> set ms = set ms"
    using assms(3) by auto
  also have "(\<Sum>a\<in>set ms. ?c) = real (card (set ms)) * ?c"
    by simp
  also have "card (set ms) = length ms"
    using assms(2) by (rule distinct_card)
  finally show ?thesis using assms(1) by simp
qed

lemma improved_row_nth:
  assumes "a < action_n env" "a < length row" "action_n env = length row \<or> action_n env = 1"
  shows "improved_row row env g v s ! a =
     (if action_value row env g v s a = Max (action_value row env g v s ` {..<action_n env})
      then 1 / real (card {b. b < action_n env \<and>
             action_value row env g v s b = Max (action_value row env g v s ` {..<action_n env})})
      else 0)"
proof -
  let ?n = "action_n env"
  let ?f = "action_value row env g v s"
  let ?avs = "map ?f [0..<?n]"
  let ?m = "Max (set ?avs)"
  let ?new = "greedy_row (np_where_eq ?avs ?m) ?n"
  have m: "?m = Max (?f ` {..<?n})"
    by (simp add: atLeast0LessThan)
  have M: "{b. b < length ?avs \<and> ?avs ! b = ?m} = {b. b < ?n \<and> ?f b = Max (?f ` {..<?n})}"
    unfolding m by auto
  have new: "?new ! a = (if ?f a = Max (?f ` {..<?n})
      then 1 / real (card {b. b < ?n \<and> ?f b = Max (?f ` {..<?n})}) else 0)"
    using assms(1) unfolding greedy_row_nth[OF assms(1)] set_np_where_eq length_np_where_eq M
    by simp
  have "improved_row row env g v s ! a = ?new ! a"
  proof (cases "?n = length row")
    case True
    then show ?thesis by (simp add: improved_row_def Let_def length_greedy_row)
  next
    case False
    then have one: "?n = 1" using assms(3) by simp
    then have a0: "a = 0" using assms(1) by simp
    have "?new \<noteq> []" using one by (simp add: greedy_row_def)
    then have "hd ?new = ?new ! 0" by (simp add: hd_conv_nth)
    then show ?thesis
      using False assms(2) a0 by (simp add: improved_row_def Let_def length_greedy_row)
  qed
  then show ?thesis using new by simp
qed

lemma improved_row_distribution:
  assumes "0 < action_n env" "action_n env = length row"
  shows "sum_list (improved_row row env g v s) = 1"
    and "\<forall>x\<in>set (improved_row row env g v s). 0 \<le> x"
    and "length (improved_row row env g v s) = length row"
proof -
  let ?n = "action_n env"
  let ?avs = "map (action_value row env g v s) [0..<?n]"
  let ?ms = "np_where_eq ?avs (Max (set ?avs))"
  have eq: "improved_row row env g v s = greedy_row ?ms ?n"
    using assms(2) by (simp add: improved_row_def Let_def length_greedy_row)
  have ne: "?avs \<noteq> []" using assms(1) by simp
  have "sum_list (greedy_row ?ms ?n) = 1"
  proof (rule sum_list_greedy_row)
    show "?ms \<noteq> []" using ne by (rule np_where_eq_Max_nonempty)
    show "distinct ?ms" by (simp add: np_where_eq_def)
    show "set ?ms \<subseteq> {..<?n}" by (auto simp: set_np_where_eq)
  qed
  then show "sum_list (improved_row row env g v s) = 1" by (simp only: eq)
  show "\<forall>x\<in>set (improved_row row env g v s). 0 \<le> x"
    unfolding eq by (auto dest: greedy_row_nonneg)
  show "length (improved_row row env g v s) = length row"
    unfolding eq using assms(2) by (simp add: length_greedy_row)
qed

lemma upt2: "[0..<2] = [0, 1]"
  by (simp add: upt_rec)

lemma line_greedy:
  "greedy_policy_from_value_function line_heap 0 line_env 0 1 =
     Inr (0, line_heap\<lparr>mats := [[[1, 0], [1/2, 1/2], [1/2, 1/2]]]\<rparr>)"
  by (simp add: greedy_policy_from_value_function_def line_heap_def line_env_def upt3 upt2
      mat_get_def vec_get_def np_getitem_def np_index_def np_where_eq_def greedy_row_def
      mat_set_row_def numeral_2_eq_2)

text \<open>
  C2. When \<^verbatim>\<open>greedy_policy_from_value_function\<close> returns, the entry it leaves for state
  \<open>s\<close> and action \<open>a\<close> is \<open>1 / |maxSet|\<close> if \<open>a\<close> attains the largest action value of \<open>s\<close>
  and \<open>0\<close> otherwise, where the action value of \<open>a\<close> is
  \<open>policy[s][a] * (reward(s, a) + discount_factor * value[next_state(s, a)])\<close>, taken on
  the policy and the values as they were at the call. With exactly two maximal actions
  each of them gets \<open>1 / 2\<close>.
\<close>

theorem greedy_policy_rows:
  assumes "greedy_policy_from_value_function h policy env vf discount_factor = Inr (p', h')"
    and "policy < length (mats h)" and "s < world_size env" and "a < action_n env"
  shows "mats h' ! p' ! s ! a =
     (if action_value (mats h ! policy ! s) env discount_factor (vecs h ! vf) s a =
         Max (action_value (mats h ! policy ! s) env discount_factor (vecs h ! vf) s ` {..<action_n env})
      then 1 / real (card {b. b < action_n env \<and>
             action_value (mats h ! policy ! s) env discount_factor (vecs h ! vf) s b =
             Max (action_value (mats h ! policy ! s) env discount_factor (vecs h ! vf) s ` {..<action_n env})})
      else 0) \<and>
     action_value (mats h ! policy ! s) env discount_factor (vecs h ! vf) s a =
       mats h ! policy ! s ! a *
         (fst (snd (look_step_ahead env s a)) +
          discount_factor * np_at (vecs h ! vf) (fst (look_step_ahead env s a))) \<and>
     (card {b. b < action_n env \<and>
             action_value (mats h ! policy ! s) env discount_factor (vecs h ! vf) s b =
             Max (action_value (mats h ! policy ! s) env discount_factor (vecs h ! vf) s ` {..<action_n env})} = 2 \<longrightarrow>
      mats h' ! p' ! s ! a =
        (if action_value (mats h ! policy ! s) env discount_factor (vecs h ! vf) s a =
         Max (action_value (mats h ! policy ! s) env discount_factor (vecs h ! vf) s ` {..<action_n env})
         then 1 / 2 else 0))"
proof -
  let ?pol = "mats h ! policy"
  let ?v = "vecs h ! vf"
  have ok: "greedy_state_ok ?pol env (length ?v) s"
    and p': "p' = policy"
    and h': "h' = h\<lparr>mats := (mats h)[policy :=
            map (\<lambda>s. if s < world_size env
                     then improved_row (?pol ! s) env discount_factor ?v s
                     else ?pol ! s) [0..<length ?pol]]\<rparr>"
    using assms(1,3) unfolding greedy_Inr[OF assms(2)] by auto
  have sl: "s < length ?pol" and al: "a < length (?pol ! s)"
    and shape: "action_n env = length (?pol ! s) \<or> action_n env = 1"
    using ok assms(4) by (auto simp: greedy_state_ok_def greedy_ok_def)
  have row: "mats h' ! p' ! s = improved_row (?pol ! s) env discount_factor ?v s"
    using assms(2,3) sl by (simp add: h' p')
  have av: "action_value (?pol ! s) env discount_factor ?v s a =
       ?pol ! s ! a *
         (fst (snd (look_step_ahead env s a)) + discount_factor * np_at ?v (fst (look_step_ahead env s a)))"
    by (simp add: action_value_def split: prod.splits)
  show ?thesis
    unfolding row improved_row_nth[OF assms(4) al shape] using av by simp
qed

theorem greedy_policy_rows_witness:
  "greedy_policy_from_value_function line_heap 0 line_env 0 1 =
     Inr (0, line_heap\<lparr>mats := [[[1, 0], [1/2, 1/2], [1/2, 1/2]]]\<rparr>) \<and>
   (0::nat) < length (mats line_heap) \<and> (1::nat) < world_size line_env \<and>
   (0::nat) < action_n line_env \<and>
   mats (line_heap\<lparr>mats := [[[1, 0], [1/2, 1/2], [1/2, 1/2]]]\<rparr>) ! 0 ! 1 ! 0 = 1 / 2 \<and>
   mats (line_heap\<lparr>mats := [[[1, 0], [1/2, 1/2], [1/2, 1/2]]]\<rparr>) ! 0 ! 1 ! 0 =
     (if action_value (mats line_heap ! 0 ! 1) line_env 1 (vecs line_heap ! 0) 1 0 =
         Max (action_value (mats line_heap ! 0 ! 1) line_env 1 (vecs line_heap ! 0) 1 ` {..<action_n line_env})
      then 1 / real (card {b. b < action_n line_env \<and>
             action_value (mats line_heap ! 0 ! 1) line_env 1 (vecs line_heap ! 0) 1 b =
             Max (action_value (mats line_heap ! 0 ! 1) line_env 1 (vecs line_heap ! 0) 1 ` {..<action_n line_env})})
      else 0)"
proof -
  have p: "(0::nat) < length (mats line_heap)" by (simp add: line_heap_def)
  have s: "(1::nat) < world_size line_env" by (simp add: line_env_def)
  have a: "(0::nat) < action_n line_env" by (simp add: line_env_def)
  have v: "mats (line_heap\<lparr>mats := [[[1, 0], [1/2, 1/2], [1/2, 1/2]]]\<rparr>) ! 0 ! 1 ! 0 = 1 / 2"
    by simp
  show ?thesis
    using greedy_policy_rows [OF line_greedy p s a] line_greedy p s a v by blast
qed

text \<open>
  C7 asks for a new policy matrix, the argument left as it was. On the line world the
  call returns the address it was given, and the uniform policy stored there is gone.
\<close>

theorem greedy_policy_overwrites_its_argument:
  "greedy_policy_from_value_function line_heap 0 line_env 0 1 =
     Inr (0, line_heap\<lparr>mats := [[[1, 0], [1/2, 1/2], [1/2, 1/2]]]\<rparr>) \<and>
   mats line_heap ! 0 = [[1/2, 1/2], [1/2, 1/2], [1/2, 1/2]] \<and>
   mats (line_heap\<lparr>mats := [[[1, 0], [1/2, 1/2], [1/2, 1/2]]]\<rparr>) ! 0 \<noteq> mats line_heap ! 0"
  using line_greedy by (simp add: line_heap_def)

lemma greedy_returns_argument:
  "greedy_policy_from_value_function h policy env vf g = Inr (p', h') \<Longrightarrow> p' = policy"
  by (auto simp: greedy_policy_from_value_function_def split: sum.splits)

subsection \<open>Rows of the improver on IEEE numbers\<close>

lemma line_greedy_nan:
  "greedy_policy_from_value_function_ieee uniform_ieee line_env [Num 0, NaN, Num 0] (Num 1) =
     Inr [[Num 0, Num 0], [Num (1/2), Num (1/2)], [Num (1/2), Num (1/2)]]"
  by (simp add: greedy_policy_from_value_function_ieee_def uniform_ieee_def line_env_def upt3 upt2
      np_getitem_def np_index_def np_where_eq_ieee_def greedy_row_def fl_eq_def fl_max_def
      set_row_ieee_def numeral_2_eq_2)

lemma fl_sum_zero: "fl_sum [Num 0, Num 0] = Num 0"
  by (simp add: fl_sum_def)

lemma fl_max_in: "fl_max x y = x \<or> fl_max x y = y"
  by (auto simp: fl_max_def)

lemma fold_fl_max_in: "fold fl_max xs x \<in> set (x # xs)"
proof (induction xs arbitrary: x)
  case Nil
  then show ?case by simp
next
  case (Cons y ys)
  have "fold fl_max ys (fl_max y x) \<in> set (fl_max y x # ys)" by (rule Cons.IH)
  then show ?case using fl_max_in[of y x] by auto
qed

lemma fold_fl_max_NaN: "fold fl_max xs NaN = NaN"
  by (induction xs) (simp_all add: fl_max_def)

lemma fold_fl_max_has_NaN: "NaN \<in> set (x # xs) \<Longrightarrow> fold fl_max xs x = NaN"
proof (induction xs arbitrary: x)
  case Nil
  then show ?case by simp
next
  case (Cons y ys)
  show ?case
  proof (cases "x = NaN \<or> y = NaN")
    case True
    then have "fl_max y x = NaN" by (auto simp: fl_max_def)
    then show ?thesis by (simp add: fold_fl_max_NaN)
  next
    case False
    then have "NaN \<in> set (fl_max y x # ys)" using Cons.prems by auto
    then show ?thesis using Cons.IH by simp
  qed
qed

lemma np_amax_ieee_Inr:
  "np_amax_ieee xs = Inr m \<Longrightarrow> xs \<noteq> [] \<and> m \<in> set xs \<and> (NaN \<in> set xs \<longrightarrow> m = NaN)"
proof (cases xs)
  case Nil
  assume "np_amax_ieee xs = Inr m"
  then show ?thesis using Nil by simp
next
  case (Cons y ys)
  assume "np_amax_ieee xs = Inr m"
  then have m: "m = fold fl_max ys y" using Cons by simp
  show ?thesis
    unfolding m Cons using fold_fl_max_in[of ys y] fold_fl_max_has_NaN[of y ys] by blast
qed

lemma fold_fl_add_Num: "fold (\<lambda>x acc. fl_add acc x) (map Num xs) (Num a) = Num (a + sum_list xs)"
  by (induction xs arbitrary: a) (simp_all add: add.assoc)

lemma fl_sum_Num: "fl_sum (map Num xs) = Num (sum_list xs)"
  by (simp add: fl_sum_def fold_fl_add_Num)

lemma set_np_where_eq_ieee:
  "set (np_where_eq_ieee avs m) = {b. b < length avs \<and> fl_eq (avs ! b) m}"
  by (auto simp: np_where_eq_ieee_def)

text \<open>The row the improver writes from given action values.\<close>

lemma greedy_row_ieee_no_NaN:
  assumes "np_amax_ieee avs = Inr m" "NaN \<notin> set avs"
  shows "fl_sum (map Num (greedy_row (np_where_eq_ieee avs m) (length avs))) = Num 1"
    and "list_all fl_nonneg (map Num (greedy_row (np_where_eq_ieee avs m) (length avs)))"
proof -
  let ?ms = "np_where_eq_ieee avs m"
  have m: "m \<in> set avs" using np_amax_ieee_Inr[OF assms(1)] by simp
  then have "m \<noteq> NaN" using assms(2) by auto
  moreover obtain b where "b < length avs" "avs ! b = m"
    using m by (auto simp: in_set_conv_nth)
  ultimately have "b \<in> set ?ms" by (simp add: set_np_where_eq_ieee fl_eq_def)
  then have ne: "?ms \<noteq> []" by auto
  have "sum_list (greedy_row ?ms (length avs)) = 1"
  proof (rule sum_list_greedy_row)
    show "?ms \<noteq> []" by (rule ne)
    show "distinct ?ms" by (simp add: np_where_eq_ieee_def)
    show "set ?ms \<subseteq> {..<length avs}" by (auto simp: set_np_where_eq_ieee)
  qed
  then show "fl_sum (map Num (greedy_row ?ms (length avs))) = Num 1"
    by (simp only: fl_sum_Num)
  show "list_all fl_nonneg (map Num (greedy_row ?ms (length avs)))"
    by (auto simp: list_all_iff dest: greedy_row_nonneg)
qed

lemma greedy_row_ieee_NaN:
  assumes "np_amax_ieee avs = Inr m" "NaN \<in> set avs"
  shows "map Num (greedy_row (np_where_eq_ieee avs m) (length avs)) = replicate (length avs) (Num 0)"
proof -
  have "m = NaN" using np_amax_ieee_Inr[OF assms(1)] assms(2) by simp
  then have "np_where_eq_ieee avs m = []"
    by (simp add: np_where_eq_ieee_def fl_eq_def)
  then show ?thesis
    by (simp add: greedy_row_def map_replicate_const)
qed

lemma greedy_actions_ieee_Inr:
  assumes "greedy_actions_ieee policy env vf g state as avs = Inr avs'"
    and "distinct as" "\<forall>a\<in>set as. a < length avs"
  shows "avs' = map (\<lambda>a. if a \<in> set as
                     then fl_add (avs ! a)
                            (case look_step_ahead env state a of
                               (next_state, reward, done) \<Rightarrow>
                                 fl_mul (policy ! state ! a)
                                   (fl_add (Num reward) (fl_mul g (np_at vf next_state))))
                     else avs ! a) [0..<length avs]"
  using assms
proof (induction as arbitrary: avs)
  case Nil
  then show ?case by (auto simp: map_nth)
next
  case (Cons a rest)
  obtain ns rw dn where st: "look_step_ahead env state a = (ns, rw, dn)"
    by (cases "look_step_ahead env state a") auto
  let ?t = "fl_mul (policy ! state ! a) (fl_add (Num rw) (fl_mul g (np_at vf ns)))"
  let ?avs1 = "avs[a := fl_add (avs ! a) ?t]"
  have step: "greedy_actions_ieee policy env vf g state rest ?avs1 = Inr avs'"
    using Cons.prems(1) st
    by (auto simp: np_getitem_int np_getitem_Inr split: sum.splits if_splits)
  have ih: "avs' = map (\<lambda>b. if b \<in> set rest
                     then fl_add (?avs1 ! b)
                            (case look_step_ahead env state b of
                               (next_state, reward, done) \<Rightarrow>
                                 fl_mul (policy ! state ! b)
                                   (fl_add (Num reward) (fl_mul g (np_at vf next_state))))
                     else ?avs1 ! b) [0..<length ?avs1]"
    by (rule Cons.IH[OF step]) (use Cons.prems in simp_all)
  show ?case
    unfolding ih using Cons.prems(2,3) st by (auto simp: nth_list_update)
qed

lemma greedy_actions_ieee_values:
  assumes "greedy_actions_ieee policy env vf g state [0..<action_n env]
             (replicate (action_n env) (Num 0)) = Inr avs"
  shows "avs = action_values_ieee (policy ! state) env g vf state"
  using greedy_actions_ieee_Inr[OF assms]
  by (auto simp: action_values_ieee_def action_value_ieee_def split: prod.splits)

lemma set_row_ieee_int:
  "set_row_ieee policy (int s) row =
     (if s < length policy
      then if length row = length (policy ! s) then Inr (policy[s := row])
           else if length row = 1 then Inr (policy[s := replicate (length (policy ! s)) (hd row)])
           else Inl ValueError
      else Inl IndexError)"
  by (simp add: set_row_ieee_def np_index_int)

lemma length_action_values_ieee: "length (action_values_ieee row env g v s) = action_n env"
  by (simp add: action_values_ieee_def)

lemma greedy_states_ieee_Inr:
  assumes "greedy_states_ieee policy env vf g ss = Inr policy'"
    and "distinct ss" "\<forall>row\<in>set policy. length row = action_n env"
  shows "length policy' = length policy \<and>
     (\<forall>s<length policy. s \<notin> set ss \<longrightarrow> policy' ! s = policy ! s) \<and>
     (\<forall>s\<in>set ss. s < length policy \<and>
        (\<exists>m. np_amax_ieee (action_values_ieee (policy ! s) env g vf s) = Inr m \<and>
             policy' ! s =
               map Num (greedy_row (np_where_eq_ieee (action_values_ieee (policy ! s) env g vf s) m)
                          (action_n env))))"
  using assms
proof (induction ss arbitrary: policy)
  case Nil
  then show ?case by simp
next
  case (Cons state rest)
  let ?avs = "action_values_ieee (policy ! state) env g vf state"
  from Cons.prems(1) obtain avs m policy1 where
    acts: "greedy_actions_ieee policy env vf g state [0..<action_n env]
             (replicate (action_n env) (Num 0)) = Inr avs"
    and amax: "np_amax_ieee avs = Inr m"
    and row: "set_row_ieee policy (int state)
                (map Num (greedy_row (np_where_eq_ieee avs m) (length avs))) = Inr policy1"
    and rest: "greedy_states_ieee policy1 env vf g rest = Inr policy'"
    by (auto split: sum.splits)
  have avs: "avs = ?avs" using acts by (rule greedy_actions_ieee_values)
  then have len: "length avs = action_n env" by (simp add: length_action_values_ieee)
  let ?row = "map Num (greedy_row (np_where_eq_ieee ?avs m) (action_n env))"
  have st: "state < length policy"
    using row by (auto simp: set_row_ieee_int split: if_splits)
  then have "length (policy ! state) = action_n env"
    using Cons.prems(3) by simp
  then have p1: "policy1 = policy[state := ?row]"
    using row st avs len by (simp add: set_row_ieee_int length_greedy_row)
  have shape1: "\<forall>row\<in>set policy1. length row = action_n env"
    using Cons.prems(3) unfolding p1
    by (auto simp: length_greedy_row dest!: set_update_subset_insert[THEN subsetD])
  have dist: "distinct rest" "state \<notin> set rest" using Cons.prems(2) by simp_all
  note ih = Cons.IH[OF rest dist(1) shape1]
  have l: "length policy' = length policy" using ih p1 by simp
  have keep: "\<forall>s<length policy. s \<notin> set (state # rest) \<longrightarrow> policy' ! s = policy ! s"
    using ih p1 by auto
  have here: "policy' ! state = ?row"
    using ih p1 st dist(2) by auto
  have there: "s < length policy \<and>
        (\<exists>m. np_amax_ieee (action_values_ieee (policy ! s) env g vf s) = Inr m \<and>
             policy' ! s =
               map Num (greedy_row (np_where_eq_ieee (action_values_ieee (policy ! s) env g vf s) m)
                          (action_n env)))" if "s \<in> set rest" for s
  proof -
    have "s \<noteq> state" using that dist(2) by auto
    then have "policy1 ! s = policy ! s" by (simp add: p1)
    then show ?thesis using ih that p1 by auto
  qed
  show ?case
    using l keep here there st amax avs by auto
qed

lemma np_getitem_map:
  "np_getitem xs i = Inr x \<Longrightarrow> np_getitem (map f xs) i = Inr (f x)"
  by (auto simp: np_getitem_def np_index_def split: if_splits)

lemma fl_max_Num: "fl_max (Num a) (Num b) = Num (max a b)"
  by (auto simp: fl_max_def max_def)

lemma fold_fl_max_Num: "fold fl_max (map Num xs) (Num x) = Num (fold max xs x)"
  by (induction xs arbitrary: x) (simp_all add: fl_max_Num)

lemma np_amax_ieee_Num: "np_amax xs = Inr m \<Longrightarrow> np_amax_ieee (map Num xs) = Inr (Num m)"
  by (cases xs) (auto simp: fold_fl_max_Num)

lemma np_where_eq_ieee_Num: "np_where_eq_ieee (map Num avs) (Num m) = np_where_eq avs m"
  unfolding np_where_eq_ieee_def np_where_eq_def
  by (rule filter_cong) (auto simp: fl_eq_def)

lemma greedy_actions_ieee_Num:
  assumes "greedy_actions h policy env vf g state as avs = Inr avs'"
  shows "greedy_actions_ieee (map (map Num) (mats h ! policy)) env (map Num (vecs h ! vf)) (Num g)
           state as (map Num avs) = Inr (map Num avs')"
  using assms
proof (induction as arbitrary: avs)
  case Nil
  then show ?case by simp
next
  case (Cons a rest)
  obtain ns rw dn where st: "look_step_ahead env state a = (ns, rw, dn)"
    by (cases "look_step_ahead env state a") auto
  from Cons.prems st obtain p x where
    p: "mat_get h policy (int state) (int a) = Inr p"
    and x: "vec_get h vf ns = Inr x"
    and rest: "greedy_actions h policy env vf g state rest (avs[a := avs ! a + p * (rw + g * x)]) = Inr avs'"
    by (auto split: sum.splits)
  from p obtain row where
    row: "np_getitem (mats h ! policy) (int state) = Inr row"
    and pr: "np_getitem row (int a) = Inr p"
    by (auto simp: mat_get_def split: sum.splits)
  have r1: "np_getitem (map (map Num) (mats h ! policy)) (int state) = Inr (map Num row)"
    using row by (rule np_getitem_map)
  have r2: "np_getitem (map Num row) (int a) = Inr (Num p)"
    using pr by (rule np_getitem_map)
  have r3: "np_getitem (map Num (vecs h ! vf)) ns = Inr (Num x)"
    using x unfolding vec_get_def by (rule np_getitem_map)
  have upd: "(map Num avs)[a := fl_add (map Num avs ! a) (Num (p * (rw + g * x)))]
      = map Num (avs[a := avs ! a + p * (rw + g * x)])"
  proof (cases "a < length avs")
    case True
    then show ?thesis by (simp add: map_update)
  next
    case False
    then have "(map Num avs)[a := y] = map Num avs" "avs[a := z] = avs" for y z
      by (simp_all add: list_update_beyond not_less)
    then show ?thesis by (simp only:)
  qed
  show ?case
    using Cons.IH[OF rest] by (simp add: st r1 r2 r3 upd)
qed

lemma set_row_ieee_Num:
  assumes "mat_set_row h policy (int state) row = Inr h1" "policy < length (mats h)"
  shows "set_row_ieee (map (map Num) (mats h ! policy)) (int state) (map Num row) =
           Inr (map (map Num) (mats h1 ! policy)) \<and> vecs h1 = vecs h \<and> length (mats h1) = length (mats h)"
proof -
  have "hd (map Num row) = Num (hd row)" if "length row = 1"
    using that by (cases row) simp_all
  then show ?thesis
    using assms
    by (auto simp: mat_set_row_int set_row_ieee_int map_update split: if_splits)
qed

lemma greedy_states_ieee_Num:
  assumes "greedy_states h policy env vf g ss = Inr h'" "policy < length (mats h)"
  shows "greedy_states_ieee (map (map Num) (mats h ! policy)) env (map Num (vecs h ! vf)) (Num g) ss =
           Inr (map (map Num) (mats h' ! policy))"
  using assms
proof (induction ss arbitrary: h)
  case Nil
  then show ?case by simp
next
  case (Cons state rest)
  from Cons.prems(1) obtain avs m h1 where
    acts: "greedy_actions h policy env vf g state [0..<action_n env] (replicate (action_n env) 0) = Inr avs"
    and amax: "np_amax avs = Inr m"
    and row: "mat_set_row h policy (int state) (greedy_row (np_where_eq avs m) (length avs)) = Inr h1"
    and rest: "greedy_states h1 policy env vf g rest = Inr h'"
    by (auto split: sum.splits)
  have a: "greedy_actions_ieee (map (map Num) (mats h ! policy)) env (map Num (vecs h ! vf)) (Num g)
           state [0..<action_n env] (replicate (action_n env) (Num 0)) = Inr (map Num avs)"
    using greedy_actions_ieee_Num[OF acts] by simp
  note r = set_row_ieee_Num[OF row Cons.prems(2)]
  have ih: "greedy_states_ieee (map (map Num) (mats h1 ! policy)) env (map Num (vecs h ! vf)) (Num g) rest =
           Inr (map (map Num) (mats h' ! policy))"
    using Cons.IH[OF rest] r Cons.prems(2) by simp
  show ?case
    using a np_amax_ieee_Num[OF amax] r ih
    by (simp add: np_where_eq_ieee_Num del: greedy_states.simps)
qed

text \<open>
  On arrays of finite numbers the two copies of the improver agree: what the one over the
  store leaves at the address of the policy is what the one over floats returns.
\<close>

lemma greedy_policy_ieee_agrees:
  assumes "greedy_policy_from_value_function h policy env vf g = Inr (p', h')"
    and "policy < length (mats h)"
  shows "greedy_policy_from_value_function_ieee (map (map Num) (mats h ! policy)) env
           (map Num (vecs h ! vf)) (Num g) = Inr (map (map Num) (mats h' ! policy))"
proof -
  have "greedy_states h policy env vf g [0..<world_size env] = Inr h'"
    using assms(1) by (auto simp: greedy_policy_from_value_function_def split: sum.splits)
  then show ?thesis
    unfolding greedy_policy_from_value_function_ieee_def
    using assms(2) by (rule greedy_states_ieee_Num)
qed

text \<open>
  C6 (amended). On a policy of \<^verbatim>\<open>world.size\<close> rows of \<^verbatim>\<open>action_space.n\<close> entries, a
  call of \<^verbatim>\<open>greedy_policy_from_value_function\<close> that returns leaves, for every state whose
  action values hold no NaN, a row without negative entries that sums to 1; the row of a
  state with a NaN among its action values is all zeros. The action values are those of
  the row and the value function as they were at the call.
\<close>

theorem greedy_policy_rows_are_distributions_without_nan:
  assumes "greedy_policy_from_value_function_ieee policy env value_function discount_factor =
             Inr policy'"
    and "length policy = world_size env"
    and "\<forall>row\<in>set policy. length row = action_n env"
    and "s < world_size env"
  shows "length policy' = length policy \<and>
     (NaN \<notin> set (action_values_ieee (policy ! s) env discount_factor value_function s) \<longrightarrow>
        list_all fl_nonneg (policy' ! s) \<and> fl_sum (policy' ! s) = Num 1) \<and>
     (NaN \<in> set (action_values_ieee (policy ! s) env discount_factor value_function s) \<longrightarrow>
        policy' ! s = replicate (action_n env) (Num 0))"
proof -
  let ?avs = "action_values_ieee (policy ! s) env discount_factor value_function s"
  have run: "greedy_states_ieee policy env value_function discount_factor [0..<world_size env] =
      Inr policy'"
    using assms(1) by (simp add: greedy_policy_from_value_function_ieee_def)
  note all = greedy_states_ieee_Inr[OF run distinct_upt assms(3)]
  have "s \<in> set [0..<world_size env]" using assms(4) by simp
  then obtain m where m: "np_amax_ieee ?avs = Inr m"
    and row: "policy' ! s = map Num (greedy_row (np_where_eq_ieee ?avs m) (action_n env))"
    using all by blast
  have n: "action_n env = length ?avs" by (simp add: length_action_values_ieee)
  show ?thesis
    using all greedy_row_ieee_no_NaN[OF m] greedy_row_ieee_NaN[OF m]
    unfolding row n by simp
qed

lemma line_action_values_1:
  "action_values_ieee (uniform_ieee ! 1) line_env (Num 1) [Num 0, NaN, Num 0] 1 =
     [Num (-1/2), Num (-1/2)]"
  by (simp add: action_values_ieee_def action_value_ieee_def uniform_ieee_def line_env_def upt2
      np_at_def)

lemma line_action_values_0:
  "action_values_ieee (uniform_ieee ! 0) line_env (Num 1) [Num 0, NaN, Num 0] 0 =
     [Num (-1/2), NaN]"
  by (simp add: action_values_ieee_def action_value_ieee_def uniform_ieee_def line_env_def upt2
      np_at_def)

theorem greedy_policy_rows_are_distributions_without_nan_witness:
  "greedy_policy_from_value_function_ieee uniform_ieee line_env [Num 0, NaN, Num 0] (Num 1) =
     Inr [[Num 0, Num 0], [Num (1/2), Num (1/2)], [Num (1/2), Num (1/2)]] \<and>
   action_values_ieee (uniform_ieee ! 1) line_env (Num 1) [Num 0, NaN, Num 0] 1 =
     [Num (-1/2), Num (-1/2)] \<and>
   list_all fl_nonneg ([[Num 0, Num 0], [Num (1/2), Num (1/2)], [Num (1/2), Num (1/2)]] ! 1) \<and>
   fl_sum ([[Num 0, Num 0], [Num (1/2), Num (1/2)], [Num (1/2), Num (1/2)]] ! 1) = Num 1 \<and>
   action_values_ieee (uniform_ieee ! 0) line_env (Num 1) [Num 0, NaN, Num 0] 0 =
     [Num (-1/2), NaN] \<and>
   [[Num 0, Num 0], [Num (1/2), Num (1/2)], [Num (1/2), Num (1/2)]] ! 0 =
     replicate (action_n line_env) (Num 0)"
proof -
  have shape: "length uniform_ieee = world_size line_env"
    "\<forall>row\<in>set uniform_ieee. length row = action_n line_env"
    by (simp_all add: uniform_ieee_def line_env_def)
  have s: "(1::nat) < world_size line_env" "(0::nat) < world_size line_env"
    by (simp_all add: line_env_def)
  have no: "NaN \<notin> set (action_values_ieee (uniform_ieee ! 1) line_env (Num 1) [Num 0, NaN, Num 0] 1)"
    unfolding line_action_values_1 by simp
  have yes: "NaN \<in> set (action_values_ieee (uniform_ieee ! 0) line_env (Num 1) [Num 0, NaN, Num 0] 0)"
    unfolding line_action_values_0 by simp
  show ?thesis
    using greedy_policy_rows_are_distributions_without_nan [OF line_greedy_nan shape s(1)]
      greedy_policy_rows_are_distributions_without_nan [OF line_greedy_nan shape s(2)]
      no yes line_greedy_nan line_action_values_1 line_action_values_0
    by blast
qed

text \<open>
  C6 as it is written asks every row to sum to 1 after every call. A NaN in the value
  function is enough to break it: on the line world, with NaN as the value of the middle
  cell, the call returns and the row of the first cell is all zeros.
\<close>

theorem greedy_policy_row_of_zeros:
  "greedy_policy_from_value_function_ieee uniform_ieee line_env [Num 0, NaN, Num 0] (Num 1) =
     Inr [[Num 0, Num 0], [Num (1/2), Num (1/2)], [Num (1/2), Num (1/2)]] \<and>
   fl_sum ([[Num 0, Num 0], [Num (1/2), Num (1/2)], [Num (1/2), Num (1/2)]] ! 0) = Num 0 \<and>
   fl_sum ([[Num 0, Num 0], [Num (1/2), Num (1/2)], [Num (1/2), Num (1/2)]] ! 0) \<noteq> Num 1"
  using line_greedy_nan by (simp add: fl_sum_def)

subsection \<open>Fixed points and what the evaluator does not read\<close>

text \<open>
  C8. If the value array has one entry for each state, the reads of the sweep stay inside
  the arrays, and every entry already equals its own backup
  \<open>reward_matrix[s] + \<Sum>a. policy[s][a] * discount_factor * value[next_state(s, a)]\<close>,
  then \<^verbatim>\<open>single_step_policy_evaluation\<close> returns, and the array it returns holds the same
  values.
\<close>

theorem evaluation_fixed_point:
  assumes "v < length (vecs h)"
    and "length (vecs h ! v) = world_size env"
    and "\<forall>s<world_size env. eval_ok (mats h ! policy) env (length (vecs h ! v)) s"
    and "\<forall>s<world_size env. vecs h ! v ! s =
           reward_matrix env ! s +
           (\<Sum>a<length (mats h ! policy ! s).
              mats h ! policy ! s ! a * discount_factor *
              np_at (vecs h ! v) (fst (look_step_ahead env s a)))"
  shows "\<exists>v_new h'. single_step_policy_evaluation h policy env discount_factor (Some v) = Inr (v_new, h')
           \<and> vecs h' ! v_new = vecs h ! v"
proof -
  let ?new = "map (bellman_backup (mats h ! policy) env discount_factor (vecs h ! v)) [0..<world_size env]"
  let ?h' = "h\<lparr>vecs := vecs h @ [?new]\<rparr>"
  have run: "single_step_policy_evaluation h policy env discount_factor (Some v) = Inr (length (vecs h), ?h')"
    unfolding single_step_Inr[OF assms(1)] using assms(3) by simp
  have "?new = vecs h ! v"
    using assms(2,4) by (intro nth_equalityI) (simp_all add: bellman_backup_def)
  then have "vecs ?h' ! length (vecs h) = vecs h ! v" by simp
  with run show ?thesis by blast
qed

theorem evaluation_fixed_point_witness:
  "(0::nat) < length (vecs fixed_heap) \<and>
   length (vecs fixed_heap ! 0) = world_size line_env \<and>
   vecs fixed_heap ! 0 = [-6, -4, 0] \<and>
   (\<exists>v_new h'. single_step_policy_evaluation fixed_heap 0 line_env 1 (Some 0) = Inr (v_new, h')
           \<and> vecs h' ! v_new = vecs fixed_heap ! 0)"
proof -
  have a: "(0::nat) < length (vecs fixed_heap)" by (simp add: fixed_heap_def)
  have b: "length (vecs fixed_heap ! 0) = world_size line_env"
    by (simp add: fixed_heap_def line_env_def)
  have c: "\<forall>s<world_size line_env. eval_ok (mats fixed_heap ! 0) line_env (length (vecs fixed_heap ! 0)) s"
    by (simp add: fixed_heap_def line_env_def eval_ok_def np_valid_def numeral_3_eq_3 numeral_2_eq_2 All_less_Suc)
  have d: "\<forall>s<world_size line_env. vecs fixed_heap ! 0 ! s =
           reward_matrix line_env ! s +
           (\<Sum>a<length (mats fixed_heap ! 0 ! s).
              mats fixed_heap ! 0 ! s ! a * 1 *
              np_at (vecs fixed_heap ! 0) (fst (look_step_ahead line_env s a)))"
    by (simp add: fixed_heap_def line_env_def np_at_def numeral_3_eq_3 numeral_2_eq_2 All_less_Suc)
  have e: "vecs fixed_heap ! 0 = [-6, -4, 0]" by (simp add: fixed_heap_def)
  show ?thesis
    using evaluation_fixed_point [OF a b c d] a b e by blast
qed

lemma eval_actions_next_only:
  assumes "\<forall>s a. fst (look_step_ahead e1 s a) = fst (look_step_ahead e2 s a)"
  shows "eval_actions h e1 g v v_new state a row = eval_actions h e2 g v v_new state a row"
proof (induction row arbitrary: h a)
  case Nil
  show ?case by simp
next
  case (Cons p ps)
  have "fst (look_step_ahead e1 state a) = fst (look_step_ahead e2 state a)"
    using assms by blast
  then show ?case
    by (simp add: Cons.IH case_prod_beta split: sum.splits)
qed

lemma eval_states_next_only:
  assumes "\<forall>s a. fst (look_step_ahead e1 s a) = fst (look_step_ahead e2 s a)"
    and "reward_matrix e1 = reward_matrix e2"
  shows "eval_states h policy e1 g v v_new ss = eval_states h policy e2 g v v_new ss"
proof (induction ss arbitrary: h)
  case Nil
  show ?case by simp
next
  case (Cons s ss)
  show ?case
    by (simp add: Cons.IH assms(2) eval_actions_next_only[OF assms(1)] split: sum.splits)
qed

lemma greedy_actions_no_done:
  assumes "\<forall>s a. fst (look_step_ahead e1 s a) = fst (look_step_ahead e2 s a) \<and>
                 fst (snd (look_step_ahead e1 s a)) = fst (snd (look_step_ahead e2 s a))"
  shows "greedy_actions h policy e1 vf g state as avs = greedy_actions h policy e2 vf g state as avs"
proof (induction as arbitrary: avs)
  case Nil
  show ?case by simp
next
  case (Cons a as)
  have "fst (look_step_ahead e1 state a) = fst (look_step_ahead e2 state a)"
    "fst (snd (look_step_ahead e1 state a)) = fst (snd (look_step_ahead e2 state a))"
    using assms by blast+
  then show ?case
    by (simp add: Cons.IH case_prod_beta split: sum.splits)
qed

lemma greedy_states_no_done:
  assumes "\<forall>s a. fst (look_step_ahead e1 s a) = fst (look_step_ahead e2 s a) \<and>
                 fst (snd (look_step_ahead e1 s a)) = fst (snd (look_step_ahead e2 s a))"
    and "action_n e1 = action_n e2"
  shows "greedy_states h policy e1 vf g ss = greedy_states h policy e2 vf g ss"
proof (induction ss arbitrary: h)
  case Nil
  show ?case by simp
next
  case (Cons s ss)
  show ?case
    by (simp add: Cons.IH assms(2) greedy_actions_no_done[OF assms(1)] split: sum.splits)
qed

text \<open>
  C9. Two environments of the same size, with the same reward table and the same next
  states, give the same result of \<^verbatim>\<open>single_step_policy_evaluation\<close> on the same store,
  policy, discount and value function, whatever reward and terminal flag their transitions
  report. Two environments that agree on sizes, next states and transition rewards give
  the same result of \<^verbatim>\<open>greedy_policy_from_value_function\<close>, whatever their terminal flags.
\<close>

theorem reward_and_done_do_not_flow:
  "(world_size e1 = world_size e2 \<and> reward_matrix e1 = reward_matrix e2 \<and>
    (\<forall>s a. fst (look_step_ahead e1 s a) = fst (look_step_ahead e2 s a)) \<longrightarrow>
    single_step_policy_evaluation h policy e1 discount_factor value_function =
    single_step_policy_evaluation h policy e2 discount_factor value_function) \<and>
   (world_size e1 = world_size e2 \<and> action_n e1 = action_n e2 \<and>
    (\<forall>s a. fst (look_step_ahead e1 s a) = fst (look_step_ahead e2 s a) \<and>
           fst (snd (look_step_ahead e1 s a)) = fst (snd (look_step_ahead e2 s a))) \<longrightarrow>
    greedy_policy_from_value_function h policy e1 vf discount_factor =
    greedy_policy_from_value_function h policy e2 vf discount_factor)"
proof (intro conjI impI)
  assume a: "world_size e1 = world_size e2 \<and> reward_matrix e1 = reward_matrix e2 \<and>
    (\<forall>s a. fst (look_step_ahead e1 s a) = fst (look_step_ahead e2 s a))"
  then have n: "\<forall>s a. fst (look_step_ahead e1 s a) = fst (look_step_ahead e2 s a)"
    and r: "reward_matrix e1 = reward_matrix e2" and w: "world_size e1 = world_size e2"
    by blast+
  show "single_step_policy_evaluation h policy e1 discount_factor value_function =
    single_step_policy_evaluation h policy e2 discount_factor value_function"
    unfolding single_step_policy_evaluation_def w eval_states_next_only[OF n r] ..
next
  assume a: "world_size e1 = world_size e2 \<and> action_n e1 = action_n e2 \<and>
    (\<forall>s a. fst (look_step_ahead e1 s a) = fst (look_step_ahead e2 s a) \<and>
           fst (snd (look_step_ahead e1 s a)) = fst (snd (look_step_ahead e2 s a)))"
  then have n: "\<forall>s a. fst (look_step_ahead e1 s a) = fst (look_step_ahead e2 s a) \<and>
           fst (snd (look_step_ahead e1 s a)) = fst (snd (look_step_ahead e2 s a))"
    and k: "action_n e1 = action_n e2" and w: "world_size e1 = world_size e2"
    by blast+
  show "greedy_policy_from_value_function h policy e1 vf discount_factor =
    greedy_policy_from_value_function h policy e2 vf discount_factor"
    unfolding greedy_policy_from_value_function_def w greedy_states_no_done[OF n k] ..
qed

theorem reward_and_done_do_not_flow_witness:
  "snd (look_step_ahead line_env 0 0) \<noteq> snd (look_step_ahead line_env_other 0 0) \<and>
   snd (snd (look_step_ahead line_env 0 0)) \<noteq> snd (snd (look_step_ahead line_env_other_done 0 0)) \<and>
   world_size line_env = world_size line_env_other \<and>
   reward_matrix line_env = reward_matrix line_env_other \<and>
   (\<forall>s a. fst (look_step_ahead line_env s a) = fst (look_step_ahead line_env_other s a)) \<and>
   single_step_policy_evaluation line_heap 0 line_env 1 (Some 0) =
   single_step_policy_evaluation line_heap 0 line_env_other 1 (Some 0) \<and>
   world_size line_env = world_size line_env_other_done \<and>
   action_n line_env = action_n line_env_other_done \<and>
   (\<forall>s a. fst (look_step_ahead line_env s a) = fst (look_step_ahead line_env_other_done s a)) \<and>
   (\<forall>s a. fst (snd (look_step_ahead line_env s a)) =
          fst (snd (look_step_ahead line_env_other_done s a))) \<and>
   greedy_policy_from_value_function line_heap 0 line_env 0 1 =
   greedy_policy_from_value_function line_heap 0 line_env_other_done 0 1"
proof -
  have d1: "snd (look_step_ahead line_env 0 0) \<noteq> snd (look_step_ahead line_env_other 0 0)"
    by (simp add: line_env_other_def line_env_def)
  have d2: "snd (snd (look_step_ahead line_env 0 0)) \<noteq> snd (snd (look_step_ahead line_env_other_done 0 0))"
    by (simp add: line_env_other_done_def line_env_def)
  have a: "world_size line_env = world_size line_env_other \<and>
      reward_matrix line_env = reward_matrix line_env_other \<and>
      (\<forall>s a. fst (look_step_ahead line_env s a) = fst (look_step_ahead line_env_other s a))"
    by (simp add: line_env_other_def case_prod_beta)
  have b: "world_size line_env = world_size line_env_other_done \<and>
      action_n line_env = action_n line_env_other_done \<and>
      (\<forall>s a. fst (look_step_ahead line_env s a) = fst (look_step_ahead line_env_other_done s a) \<and>
           fst (snd (look_step_ahead line_env s a)) =
           fst (snd (look_step_ahead line_env_other_done s a)))"
    by (simp add: line_env_other_done_def case_prod_beta)
  show ?thesis
    using reward_and_done_do_not_flow [THEN conjunct1, THEN mp, OF a, of line_heap 0 1 "Some 0"]
      reward_and_done_do_not_flow [THEN conjunct2, THEN mp, OF b, of line_heap 0 0 1]
      d1 d2 a b
    by blast
qed

subsection \<open>The controllers\<close>

lemma np_subtract_same:
  "length xs = length ys \<Longrightarrow>
   np_subtract xs ys = Inr (map (\<lambda>s. xs ! s - ys ! s) [0..<length xs])"
  by (auto simp: np_subtract_def intro!: nth_equalityI)

lemma np_amax_map_upt:
  "0 < n \<Longrightarrow> np_amax (map f [0..<n]) = Inr (Max (f ` {..<n}))"
  by (simp add: np_amax_Inr atLeast0LessThan)

lemma policy_iteration_body_Inr:
  assumes "vf < length (vecs h)" "policy < length (mats h)"
    and "length (vecs h ! vf) = world_size env" "0 < world_size env"
    and "\<forall>s<world_size env. eval_ok (mats h ! policy) env (world_size env) s"
    and "\<forall>s<world_size env. greedy_state_ok (mats h ! policy) env (world_size env) s"
    and "v' = map (bellman_backup (mats h ! policy) env g (vecs h ! vf)) [0..<world_size env]"
  shows "policy_iteration_body h policy env g vf =
     Inr (length (vecs h), Max ((\<lambda>s. vecs h ! vf ! s - v' ! s) ` {..<world_size env}), policy,
          h\<lparr>vecs := vecs h @ [v'],
            mats := (mats h)[policy :=
              map (\<lambda>s. if s < world_size env
                       then improved_row (mats h ! policy ! s) env g v' s
                       else mats h ! policy ! s) [0..<length (mats h ! policy)]]\<rparr>)"
proof -
  let ?N = "world_size env"
  let ?h1 = "h\<lparr>vecs := vecs h @ [v']\<rparr>"
  have ev: "single_step_policy_evaluation h policy env g (Some vf) = Inr (length (vecs h), ?h1)"
    unfolding single_step_Inr[OF assms(1)] using assms(3,5,7) by simp
  have old: "(vecs h @ [v']) ! vf = vecs h ! vf" using assms(1) by (simp add: nth_append)
  have new: "vecs ?h1 ! length (vecs h) = v'" by simp
  have len: "length v' = ?N" using assms(7) by simp
  have sub: "np_subtract (vecs h ! vf) v' = Inr (map (\<lambda>s. vecs h ! vf ! s - v' ! s) [0..<?N])"
    using np_subtract_same[of "vecs h ! vf" v'] assms(3) len by simp
  have mx: "np_amax (map (\<lambda>s. vecs h ! vf ! s - v' ! s) [0..<?N]) =
      Inr (Max ((\<lambda>s. vecs h ! vf ! s - v' ! s) ` {..<?N}))"
    using assms(4) by (rule np_amax_map_upt)
  have p1: "policy < length (mats ?h1)" using assms(2) by simp
  have gr: "greedy_policy_from_value_function ?h1 policy env (length (vecs h)) g =
      Inr (policy, ?h1\<lparr>mats := (mats ?h1)[policy :=
              map (\<lambda>s. if s < ?N
                       then improved_row (mats ?h1 ! policy ! s) env g (vecs ?h1 ! length (vecs h)) s
                       else mats ?h1 ! policy ! s) [0..<length (mats ?h1 ! policy)]]\<rparr>)"
    unfolding greedy_Inr[OF p1] using assms(6) len by simp
  show ?thesis
    unfolding policy_iteration_body_def ev
    by (simp add: old sub mx gr del: np_amax.simps cong: if_cong)
qed

text \<open>
  C3. One turn of the loop of \<^verbatim>\<open>policy_iteration\<close>, on a value array with one entry for
  each state and reads that stay inside the arrays: \<open>v'\<close> is the result of one sweep of
  the current policy and nothing more, \<open>delta\<close> is the largest of the signed differences
  \<open>value[s] - v'[s]\<close>, the improved policy is computed from \<open>v'\<close>, and the loop returns
  the pair when \<open>delta < threshold\<close>, returns it with a warning when the budget is reached,
  and otherwise goes on with \<open>v'\<close> as its value function.
\<close>

theorem policy_iteration_step:
  assumes "vf < length (vecs h)" "policy < length (mats h)"
    and "length (vecs h ! vf) = world_size env" "0 < world_size env"
    and "\<forall>s<world_size env. eval_ok (mats h ! policy) env (world_size env) s"
    and "\<forall>s<world_size env. greedy_state_ok (mats h ! policy) env (world_size env) s"
    and "v' = map (bellman_backup (mats h ! policy) env discount_factor (vecs h ! vf)) [0..<world_size env]"
    and "delta = Max ((\<lambda>s. vecs h ! vf ! s - v' ! s) ` {..<world_size env})"
    and "h2 = h\<lparr>vecs := vecs h @ [v'],
            mats := (mats h)[policy :=
              map (\<lambda>s. if s < world_size env
                       then improved_row (mats h ! policy ! s) env discount_factor v' s
                       else mats h ! policy ! s) [0..<length (mats h ! policy)]]\<rparr>"
  shows "policy_iteration_loop (Suc fuel) h policy env threshold max_steps discount_factor vf step_number =
     (if delta < threshold
      then Some (Inr \<lparr>returned_value = length (vecs h), returned_policy = policy,
                      final_heap = h2, warned = False, steps = step_number + 1,
                      last_delta = delta\<rparr>)
      else if step_number + 1 = max_steps
      then Some (Inr \<lparr>returned_value = length (vecs h), returned_policy = policy,
                      final_heap = h2, warned = True, steps = step_number + 1,
                      last_delta = delta\<rparr>)
      else policy_iteration_loop fuel h2 policy env threshold max_steps discount_factor
             (length (vecs h)) (step_number + 1))"
  using policy_iteration_body_Inr[OF assms(1-7)] assms(8,9) by simp

lemma check_policy_cases:
  assumes "check_policy h gp env pv g delta threshold = Inr (branch, gp', h')"
  shows "gp' = gp \<and> branch \<noteq> Adopted \<and> (branch = Converged \<longleftrightarrow> delta < threshold)"
  using assms
  by (auto simp: check_policy_def greedy_policy_from_value_function_def
      split: if_splits sum.splits)

lemma value_iteration_body_cases:
  assumes "value_iteration_body h gp env threshold g vf = Inr (pv, delta, branch, gp', h2)"
  shows "gp' = gp \<and> branch \<noteq> Adopted \<and> (branch = Converged \<longleftrightarrow> delta < threshold)"
proof -
  from assms obtain h1 where
    "check_policy h1 gp env pv g delta threshold = Inr (branch, gp', h2)"
    by (auto simp: value_iteration_body_def split: sum.splits)
  then show ?thesis by (rule check_policy_cases)
qed

lemma lessThan_3: "{..<3::nat} = {0, 1, 2}"
  by auto

lemma line_backup:
  "map (bellman_backup (mats line_heap ! 0) line_env 1 (vecs line_heap ! 0)) [0..<world_size line_env]
     = [-2, -1, 0]"
  by (simp add: bellman_backup_def line_heap_def line_env_def upt3 np_at_def numeral_2_eq_2)

lemma line_delta:
  "Max ((\<lambda>s. vecs line_heap ! 0 ! s - [-2, -1, 0::real] ! s) ` {..<world_size line_env}) = 2"
  by (simp add: line_heap_def line_env_def lessThan_3)

lemma line_improved:
  "line_heap\<lparr>vecs := vecs line_heap @ [[-2, -1, 0]],
       mats := (mats line_heap)[0 :=
         map (\<lambda>s. if s < world_size line_env
                  then improved_row (mats line_heap ! 0 ! s) line_env 1 [-2, -1, 0] s
                  else mats line_heap ! 0 ! s) [0..<length (mats line_heap ! 0)]]\<rparr>
     = line_heap_improved"
  by (simp add: line_heap_def line_env_def line_heap_improved_def upt3 upt2 improved_row_def
      action_value_def greedy_row_def np_where_eq_def np_at_def Let_def)

lemma line_eval_ok: "\<forall>s<world_size line_env. eval_ok (mats line_heap ! 0) line_env (world_size line_env) s"
  by (simp add: line_heap_def line_env_def eval_ok_def np_valid_def numeral_3_eq_3 numeral_2_eq_2
      All_less_Suc)

lemma line_greedy_ok:
  "\<forall>s<world_size line_env. greedy_state_ok (mats line_heap ! 0) line_env (world_size line_env) s"
  by (simp add: line_heap_def line_env_def greedy_state_ok_def greedy_ok_def np_valid_def
      numeral_3_eq_3 numeral_2_eq_2 All_less_Suc)

theorem policy_iteration_step_witness:
  "(0::nat) < length (vecs line_heap) \<and> (0::nat) < length (mats line_heap) \<and>
   length (vecs line_heap ! 0) = world_size line_env \<and> 0 < world_size line_env \<and>
   policy_iteration_loop (Suc 0) line_heap 0 line_env 3 10 1 0 0 =
     Some (Inr \<lparr>returned_value = 1, returned_policy = 0, final_heap = line_heap_improved,
                 warned = False, steps = 1, last_delta = 2\<rparr>)"
proof -
  have a: "(0::nat) < length (vecs line_heap)" "(0::nat) < length (mats line_heap)"
    "length (vecs line_heap ! 0) = world_size line_env" "0 < world_size line_env"
    by (simp_all add: line_heap_def line_env_def)
  show ?thesis
    using policy_iteration_step [OF a line_eval_ok line_greedy_ok line_backup[symmetric]
        line_delta[symmetric] line_improved[symmetric], of 0 3 10 0] a
    by (simp add: line_heap_def)
qed

lemma line_vi_body:
  "value_iteration_body line_heap 0 line_env 3 1 0 = Inr (1, 2, Converged, 0, line_heap_improved)"
proof -
  have a: "(0::nat) < length (vecs line_heap)" "(0::nat) < length (mats line_heap)"
    "length (vecs line_heap ! 0) = world_size line_env" "0 < world_size line_env"
    by (simp_all add: line_heap_def line_env_def)
  have pi: "policy_iteration_body line_heap 0 line_env 1 0 = Inr (1, 2, 0, line_heap_improved)"
    using policy_iteration_body_Inr [OF a line_eval_ok line_greedy_ok line_backup[symmetric]]
    by (simp add: line_delta line_improved) (simp add: line_heap_def)
  then show ?thesis
    by (auto simp: policy_iteration_body_def value_iteration_body_def check_policy_def np_all_def
        line_heap_improved_def split: sum.splits prod.splits)
qed

text \<open>
  C10. \<^verbatim>\<open>greedy_policy_from_value_function\<close> returns the address it was given, so the two
  sides of the test in \<^verbatim>\<open>value_iteration\<close> are the same array and the test holds: the
  check never takes the branch that adopts a new policy, and the loop returns, without a
  warning, in the first turn whose \<open>delta\<close> is below the threshold.
\<close>

theorem value_iteration_never_adopts:
  "(greedy_policy_from_value_function h gp env pv discount_factor = Inr (new_policy, h') \<longrightarrow>
      new_policy = gp \<and> np_all (mats h' ! gp) = np_all (mats h' ! new_policy)) \<and>
   check_policy h gp env pv discount_factor delta threshold \<noteq> Inr (Adopted, gp', h'') \<and>
   (value_iteration_body h gp env threshold discount_factor vf = Inr (pv', delta', branch, gp'', h2) \<longrightarrow>
      branch \<noteq> Adopted \<and> gp'' = gp \<and>
      (delta' < threshold \<longrightarrow>
         value_iteration_loop (Suc fuel) h gp env threshold max_steps discount_factor vf step_number =
           Some (Inr \<lparr>returned_value = pv', returned_policy = gp, final_heap = h2,
                       warned = False, steps = step_number, last_delta = delta'\<rparr>)))"
proof (intro conjI impI)
  assume "greedy_policy_from_value_function h gp env pv discount_factor = Inr (new_policy, h')"
  then show "new_policy = gp" by (rule greedy_returns_argument)
  then show "np_all (mats h' ! gp) = np_all (mats h' ! new_policy)" by simp
next
  show "check_policy h gp env pv discount_factor delta threshold \<noteq> Inr (Adopted, gp', h'')"
    using check_policy_cases[of h gp env pv discount_factor delta threshold Adopted gp' h''] by blast
next
  assume b: "value_iteration_body h gp env threshold discount_factor vf = Inr (pv', delta', branch, gp'', h2)"
  note c = value_iteration_body_cases[OF b]
  show "branch \<noteq> Adopted" "gp'' = gp" using c by blast+
  assume "delta' < threshold"
  then show "value_iteration_loop (Suc fuel) h gp env threshold max_steps discount_factor vf step_number =
           Some (Inr \<lparr>returned_value = pv', returned_policy = gp, final_heap = h2,
                       warned = False, steps = step_number, last_delta = delta'\<rparr>)"
    using b c by simp
qed

lemma line_greedy_after_sweep:
  "greedy_policy_from_value_function (line_heap\<lparr>vecs := [[0, -2, 0], [-2, -1, 0]]\<rparr>) 0 line_env 1 1 =
     Inr (0, line_heap_improved)"
  by (simp add: greedy_policy_from_value_function_def line_heap_def line_env_def upt3 upt2
      mat_get_def vec_get_def np_getitem_def np_index_def np_where_eq_def greedy_row_def
      mat_set_row_def numeral_2_eq_2 line_heap_improved_def)

lemma line_diff:
  "np_subtract (vecs (line_heap\<lparr>vecs := [[0, -2, 0], [-2, -1, 0]]\<rparr>) ! 0)
     (vecs (line_heap\<lparr>vecs := [[0, -2, 0], [-2, -1, 0]]\<rparr>) ! 1) = Inr [2, -1, 0]"
  by (simp add: np_subtract_def)

lemma line_amax: "np_amax [2, -1, 0] = Inr 2"
  by simp

theorem value_iteration_never_adopts_witness:
  "greedy_policy_from_value_function line_heap 0 line_env 0 1 =
     Inr (0, line_heap\<lparr>mats := [[[1, 0], [1/2, 1/2], [1/2, 1/2]]]\<rparr>) \<and>
   value_iteration_body line_heap 0 line_env 3 1 0 = Inr (1, 2, Converged, 0, line_heap_improved) \<and>
   (2::real) < 3 \<and>
   value_iteration_loop (Suc 0) line_heap 0 line_env 3 10 1 0 0 =
     Some (Inr \<lparr>returned_value = 1, returned_policy = 0, final_heap = line_heap_improved,
                 warned = False, steps = 0, last_delta = 2\<rparr>)"
proof -
  have less: "(2::real) < 3" by simp
  note never = value_iteration_never_adopts [where h = line_heap and gp = 0 and env = line_env
      and threshold = 3 and discount_factor = 1 and vf = 0 and pv' = 1 and delta' = 2
      and branch = Converged and gp'' = 0 and ?h2.0 = line_heap_improved and fuel = 0
      and max_steps = 10 and step_number = 0]
  show ?thesis
    using never line_vi_body line_greedy less by blast
qed

lemma not_converged_Inr [simp]:
  "not_converged threshold (Inr (pv, delta, rest)) \<longleftrightarrow> \<not> delta < threshold"
  by (simp add: not_converged_def)

lemma not_converged_Inl [simp]: "\<not> not_converged threshold (Inl e)"
  by (simp add: not_converged_def)

lemma policy_iteration_loop_outcome:
  assumes "step_number < max_steps" "nat (max_steps - step_number) \<le> fuel"
  shows "\<exists>r k. policy_iteration_loop fuel h policy env threshold max_steps g vf step_number = Some r \<and>
     k < nat (max_steps - step_number) \<and>
     (\<forall>j<k. not_converged threshold (policy_iteration_turn j h policy env g vf)) \<and>
     (case r of
        Inl e \<Rightarrow> policy_iteration_turn k h policy env g vf = Inl e
      | Inr res \<Rightarrow>
          policy_iteration_turn k h policy env g vf =
            Inr (returned_value res, last_delta res, returned_policy res, final_heap res) \<and>
          steps res = step_number + int k + 1 \<and>
          (warned res \<longleftrightarrow> \<not> last_delta res < threshold) \<and>
          (warned res \<longrightarrow> steps res = max_steps))"
  using assms
proof (induction fuel arbitrary: h vf step_number)
  case 0
  then show ?case by simp
next
  case (Suc fuel)
  have pos: "0 < nat (max_steps - step_number)" using Suc.prems by simp
  show ?case
  proof (cases "policy_iteration_body h policy env g vf")
    case (Inl e)
    then have "policy_iteration_loop (Suc fuel) h policy env threshold max_steps g vf step_number = Some (Inl e)"
      by simp
    moreover have "policy_iteration_turn 0 h policy env g vf = Inl e" using Inl by simp
    ultimately show ?thesis using pos
      by (intro exI[of _ "Inl e"] exI[of _ 0]) simp
  next
    case (Inr b)
    obtain pv delta gp h2 where b: "b = (pv, delta, gp, h2)" by (cases b) auto
    have t0: "policy_iteration_turn 0 h policy env g vf = Inr (pv, delta, gp, h2)"
      using Inr b by simp
    show ?thesis
    proof (cases "delta < threshold \<or> step_number + 1 = max_steps")
      case True
      let ?res = "\<lparr>returned_value = pv, returned_policy = gp, final_heap = h2,
                    warned = \<not> delta < threshold, steps = step_number + 1, last_delta = delta\<rparr>"
      have "policy_iteration_loop (Suc fuel) h policy env threshold max_steps g vf step_number = Some (Inr ?res)"
        using Inr b True by auto
      then show ?thesis using pos t0 True
        by (intro exI[of _ "Inr ?res"] exI[of _ 0]) auto
    next
      case False
      then have nc: "\<not> delta < threshold" and
        a: "step_number + 1 < max_steps" "nat (max_steps - (step_number + 1)) \<le> fuel"
        using Suc.prems by auto
      from Suc.IH[OF a, of h2 pv] obtain r k where
        r: "policy_iteration_loop fuel h2 policy env threshold max_steps g pv (step_number + 1) = Some r"
        and k: "k < nat (max_steps - (step_number + 1))"
        and before: "\<forall>j<k. not_converged threshold (policy_iteration_turn j h2 policy env g pv)"
        and out: "(case r of
            Inl e \<Rightarrow> policy_iteration_turn k h2 policy env g pv = Inl e
          | Inr res \<Rightarrow>
              policy_iteration_turn k h2 policy env g pv =
                Inr (returned_value res, last_delta res, returned_policy res, final_heap res) \<and>
              steps res = step_number + 1 + int k + 1 \<and>
              (warned res \<longleftrightarrow> \<not> last_delta res < threshold) \<and>
              (warned res \<longrightarrow> steps res = max_steps))"
        by blast
      have next_turn: "policy_iteration_turn (Suc j) h policy env g vf = policy_iteration_turn j h2 policy env g pv" for j
        using Inr b by simp
      have run: "policy_iteration_loop (Suc fuel) h policy env threshold max_steps g vf step_number = Some r"
        using Inr b False r by simp
      have k': "Suc k < nat (max_steps - step_number)" using k by simp
      have before': "\<forall>j<Suc k. not_converged threshold (policy_iteration_turn j h policy env g vf)"
      proof (intro allI impI)
        fix j assume "j < Suc k"
        then show "not_converged threshold (policy_iteration_turn j h policy env g vf)"
          using before nc t0 next_turn by (cases j) auto
      qed
      have out': "(case r of
            Inl e \<Rightarrow> policy_iteration_turn (Suc k) h policy env g vf = Inl e
          | Inr res \<Rightarrow>
              policy_iteration_turn (Suc k) h policy env g vf =
                Inr (returned_value res, last_delta res, returned_policy res, final_heap res) \<and>
              steps res = step_number + int (Suc k) + 1 \<and>
              (warned res \<longleftrightarrow> \<not> last_delta res < threshold) \<and>
              (warned res \<longrightarrow> steps res = max_steps))"
        using out unfolding next_turn by (auto split: sum.splits)
      show ?thesis
        using run k' before' out' by blast
    qed
  qed
qed

lemma value_iteration_loop_outcome:
  assumes "step_number < max_steps" "nat (max_steps - step_number) \<le> fuel"
  shows "\<exists>r k. value_iteration_loop fuel h gp env threshold max_steps g vf step_number = Some r \<and>
     k < nat (max_steps - step_number) \<and>
     (\<forall>j<k. not_converged threshold (value_iteration_turn j h gp env threshold g vf)) \<and>
     (case r of
        Inl e \<Rightarrow> value_iteration_turn k h gp env threshold g vf = Inl e
      | Inr res \<Rightarrow>
          (\<exists>branch. value_iteration_turn k h gp env threshold g vf =
            Inr (returned_value res, last_delta res, branch, returned_policy res, final_heap res)) \<and>
          (warned res \<longleftrightarrow> \<not> last_delta res < threshold) \<and>
          steps res = (if warned res then max_steps else step_number + int k) \<and>
          (warned res \<longrightarrow> step_number + int k + 1 = max_steps))"
  using assms
proof (induction fuel arbitrary: h gp vf step_number)
  case 0
  then show ?case by simp
next
  case (Suc fuel)
  have pos: "0 < nat (max_steps - step_number)" using Suc.prems by simp
  show ?case
  proof (cases "value_iteration_body h gp env threshold g vf")
    case (Inl e)
    then have "value_iteration_loop (Suc fuel) h gp env threshold max_steps g vf step_number = Some (Inl e)"
      by simp
    moreover have "value_iteration_turn 0 h gp env threshold g vf = Inl e" using Inl by simp
    ultimately show ?thesis using pos
      by (intro exI[of _ "Inl e"] exI[of _ 0]) simp
  next
    case (Inr b)
    obtain pv delta branch gp' h2 where b: "b = (pv, delta, branch, gp', h2)" by (cases b) auto
    have t0: "value_iteration_turn 0 h gp env threshold g vf = Inr (pv, delta, branch, gp', h2)"
      using Inr b by simp
    have br: "branch = Converged \<longleftrightarrow> delta < threshold"
      using value_iteration_body_cases[of h gp env threshold g vf pv delta branch gp' h2] Inr b
      by simp
    show ?thesis
    proof (cases "branch = Converged \<or> step_number + 1 = max_steps")
      case True
      let ?res = "\<lparr>returned_value = pv, returned_policy = gp', final_heap = h2,
                    warned = \<not> delta < threshold,
                    steps = (if delta < threshold then step_number else step_number + 1),
                    last_delta = delta\<rparr>"
      have "value_iteration_loop (Suc fuel) h gp env threshold max_steps g vf step_number = Some (Inr ?res)"
        using Inr b True br by auto
      then show ?thesis using pos t0 True br
        by (intro exI[of _ "Inr ?res"] exI[of _ 0]) auto
    next
      case False
      then have nc: "\<not> delta < threshold" and
        a: "step_number + 1 < max_steps" "nat (max_steps - (step_number + 1)) \<le> fuel"
        using Suc.prems br by auto
      from Suc.IH[OF a, of h2 gp' pv] obtain r k where
        r: "value_iteration_loop fuel h2 gp' env threshold max_steps g pv (step_number + 1) = Some r"
        and k: "k < nat (max_steps - (step_number + 1))"
        and before: "\<forall>j<k. not_converged threshold (value_iteration_turn j h2 gp' env threshold g pv)"
        and out: "(case r of
            Inl e \<Rightarrow> value_iteration_turn k h2 gp' env threshold g pv = Inl e
          | Inr res \<Rightarrow>
              (\<exists>branch. value_iteration_turn k h2 gp' env threshold g pv =
                Inr (returned_value res, last_delta res, branch, returned_policy res, final_heap res)) \<and>
              (warned res \<longleftrightarrow> \<not> last_delta res < threshold) \<and>
              steps res = (if warned res then max_steps else step_number + 1 + int k) \<and>
              (warned res \<longrightarrow> step_number + 1 + int k + 1 = max_steps))"
        by blast
      have next_turn: "value_iteration_turn (Suc j) h gp env threshold g vf =
          value_iteration_turn j h2 gp' env threshold g pv" for j
        using Inr b by simp
      have run: "value_iteration_loop (Suc fuel) h gp env threshold max_steps g vf step_number = Some r"
        using Inr b False r by simp
      have k': "Suc k < nat (max_steps - step_number)" using k by simp
      have before': "\<forall>j<Suc k. not_converged threshold (value_iteration_turn j h gp env threshold g vf)"
      proof (intro allI impI)
        fix j assume "j < Suc k"
        then show "not_converged threshold (value_iteration_turn j h gp env threshold g vf)"
          using before nc t0 next_turn by (cases j) auto
      qed
      have out': "(case r of
            Inl e \<Rightarrow> value_iteration_turn (Suc k) h gp env threshold g vf = Inl e
          | Inr res \<Rightarrow>
              (\<exists>branch. value_iteration_turn (Suc k) h gp env threshold g vf =
                Inr (returned_value res, last_delta res, branch, returned_policy res, final_heap res)) \<and>
              (warned res \<longleftrightarrow> \<not> last_delta res < threshold) \<and>
              steps res = (if warned res then max_steps else step_number + int (Suc k)) \<and>
              (warned res \<longrightarrow> step_number + int (Suc k) + 1 = max_steps))"
        using out unfolding next_turn by (auto split: sum.splits)
      show ?thesis
        using run k' before' out' by blast
    qed
  qed
qed

lemma policy_iteration_loop_budget:
  assumes "0 < max_steps"
    and "\<forall>j<nat max_steps. not_converged threshold (policy_iteration_turn j h policy env g vf)"
  shows "\<exists>pv delta gp h'.
     policy_iteration_turn (nat max_steps - 1) h policy env g vf = Inr (pv, delta, gp, h') \<and>
     policy_iteration_loop (nat max_steps) h policy env threshold max_steps g vf 0 =
       Some (Inr \<lparr>returned_value = pv, returned_policy = gp, final_heap = h',
                   warned = True, steps = max_steps, last_delta = delta\<rparr>)"
proof -
  have a: "(0::int) < max_steps" "nat (max_steps - 0) \<le> nat max_steps" using assms(1) by auto
  from policy_iteration_loop_outcome[OF a, of h policy env threshold g vf] obtain r k where
    run: "policy_iteration_loop (nat max_steps) h policy env threshold max_steps g vf 0 = Some r"
    and k: "k < nat max_steps"
    and out: "(case r of
        Inl e \<Rightarrow> policy_iteration_turn k h policy env g vf = Inl e
      | Inr res \<Rightarrow>
          policy_iteration_turn k h policy env g vf =
            Inr (returned_value res, last_delta res, returned_policy res, final_heap res) \<and>
          steps res = 0 + int k + 1 \<and>
          (warned res \<longleftrightarrow> \<not> last_delta res < threshold) \<and>
          (warned res \<longrightarrow> steps res = max_steps))"
    by auto
  have nc: "not_converged threshold (policy_iteration_turn k h policy env g vf)"
    using assms(2) k by blast
  show ?thesis
  proof (cases r)
    case (Inl e)
    then show ?thesis using out nc by simp
  next
    case (Inr res)
    then have t: "policy_iteration_turn k h policy env g vf =
            Inr (returned_value res, last_delta res, returned_policy res, final_heap res)"
      and st: "steps res = int k + 1"
      and w: "warned res \<longleftrightarrow> \<not> last_delta res < threshold"
      and m: "warned res \<longrightarrow> steps res = max_steps"
      using out by auto
    have warned: "warned res" using nc t w by simp
    then have last: "k = nat max_steps - 1" and steps: "steps res = max_steps" using m st by auto
    have "res = \<lparr>returned_value = returned_value res, returned_policy = returned_policy res,
                 final_heap = final_heap res, warned = True, steps = max_steps,
                 last_delta = last_delta res\<rparr>"
      using warned steps by simp
    then show ?thesis using run Inr t last by metis
  qed
qed

lemma value_iteration_loop_budget:
  assumes "0 < max_steps"
    and "\<forall>j<nat max_steps. not_converged threshold (value_iteration_turn j h gp env threshold g vf)"
  shows "\<exists>pv delta branch gp' h'.
     value_iteration_turn (nat max_steps - 1) h gp env threshold g vf = Inr (pv, delta, branch, gp', h') \<and>
     value_iteration_loop (nat max_steps) h gp env threshold max_steps g vf 0 =
       Some (Inr \<lparr>returned_value = pv, returned_policy = gp', final_heap = h',
                   warned = True, steps = max_steps, last_delta = delta\<rparr>)"
proof -
  have a: "(0::int) < max_steps" "nat (max_steps - 0) \<le> nat max_steps" using assms(1) by auto
  from value_iteration_loop_outcome[OF a, of h gp env threshold g vf] obtain r k where
    run: "value_iteration_loop (nat max_steps) h gp env threshold max_steps g vf 0 = Some r"
    and k: "k < nat max_steps"
    and out: "(case r of
        Inl e \<Rightarrow> value_iteration_turn k h gp env threshold g vf = Inl e
      | Inr res \<Rightarrow>
          (\<exists>branch. value_iteration_turn k h gp env threshold g vf =
            Inr (returned_value res, last_delta res, branch, returned_policy res, final_heap res)) \<and>
          (warned res \<longleftrightarrow> \<not> last_delta res < threshold) \<and>
          steps res = (if warned res then max_steps else 0 + int k) \<and>
          (warned res \<longrightarrow> 0 + int k + 1 = max_steps))"
    by auto
  have nc: "not_converged threshold (value_iteration_turn k h gp env threshold g vf)"
    using assms(2) k by blast
  show ?thesis
  proof (cases r)
    case (Inl e)
    then show ?thesis using out nc by simp
  next
    case (Inr res)
    then obtain branch where t: "value_iteration_turn k h gp env threshold g vf =
            Inr (returned_value res, last_delta res, branch, returned_policy res, final_heap res)"
      and w: "warned res \<longleftrightarrow> \<not> last_delta res < threshold"
      and st: "steps res = (if warned res then max_steps else int k)"
      and m: "warned res \<longrightarrow> int k + 1 = max_steps"
      using out by auto
    have warned: "warned res" using nc t w by simp
    then have last: "k = nat max_steps - 1" and steps: "steps res = max_steps" using m st by auto
    have "res = \<lparr>returned_value = returned_value res, returned_policy = returned_policy res,
                 final_heap = final_heap res, warned = True, steps = max_steps,
                 last_delta = last_delta res\<rparr>"
      using warned steps by simp
    then show ?thesis using run Inr t last by metis
  qed
qed

text \<open>
  C5. With \<^verbatim>\<open>max_steps\<close> at least 1, both controllers stop within \<^verbatim>\<open>max_steps\<close> turns of
  their loop: given fuel for that many turns, each of them returns or raises in some turn
  \<open>k\<close> below \<^verbatim>\<open>max_steps\<close>, after turns that all returned with a \<^verbatim>\<open>delta\<close> not below the
  threshold. It raises only what that turn raises. What it returns is the pair
  \<^verbatim>\<open>(policy_value, greedy_policy)\<close> of that turn, with the warning exactly when the \<^verbatim>\<open>delta\<close>
  of that turn is not below the threshold, which happens in turn \<^verbatim>\<open>max_steps\<close> only. And
  when every turn up to the budget returns with a \<^verbatim>\<open>delta\<close> not below the threshold, the
  controller does not raise: it warns and returns the pair of the last turn.
\<close>

theorem controllers_stop_within_budget:
  assumes "1 \<le> max_steps"
    and "default_value_function h env value_function = (v, h1)"
  shows
    "(\<exists>r k. policy_iteration (nat max_steps) h policy env value_function threshold max_steps
               discount_factor = Some r \<and>
        k < nat max_steps \<and>
        (\<forall>j<k. not_converged threshold (policy_iteration_turn j h1 policy env discount_factor v)) \<and>
        (case r of
           Inl e \<Rightarrow> policy_iteration_turn k h1 policy env discount_factor v = Inl e
         | Inr res \<Rightarrow>
             policy_iteration_turn k h1 policy env discount_factor v =
               Inr (returned_value res, last_delta res, returned_policy res, final_heap res) \<and>
             steps res = int k + 1 \<and>
             (warned res \<longleftrightarrow> \<not> last_delta res < threshold) \<and>
             (warned res \<longrightarrow> steps res = max_steps))) \<and>
     ((\<forall>j<nat max_steps.
         not_converged threshold (policy_iteration_turn j h1 policy env discount_factor v)) \<longrightarrow>
      (\<exists>pv delta gp h'.
         policy_iteration_turn (nat max_steps - 1) h1 policy env discount_factor v =
           Inr (pv, delta, gp, h') \<and>
         policy_iteration (nat max_steps) h policy env value_function threshold max_steps
           discount_factor =
           Some (Inr \<lparr>returned_value = pv, returned_policy = gp, final_heap = h',
                       warned = True, steps = max_steps, last_delta = delta\<rparr>))) \<and>
     (\<exists>r k. value_iteration (nat max_steps) h policy env value_function threshold max_steps
               discount_factor = Some r \<and>
        k < nat max_steps \<and>
        (\<forall>j<k. not_converged threshold
                 (value_iteration_turn j h1 policy env threshold discount_factor v)) \<and>
        (case r of
           Inl e \<Rightarrow> value_iteration_turn k h1 policy env threshold discount_factor v = Inl e
         | Inr res \<Rightarrow>
             (\<exists>branch. value_iteration_turn k h1 policy env threshold discount_factor v =
               Inr (returned_value res, last_delta res, branch, returned_policy res, final_heap res)) \<and>
             (warned res \<longleftrightarrow> \<not> last_delta res < threshold) \<and>
             steps res = (if warned res then max_steps else int k) \<and>
             (warned res \<longrightarrow> int k + 1 = max_steps))) \<and>
     ((\<forall>j<nat max_steps.
         not_converged threshold
           (value_iteration_turn j h1 policy env threshold discount_factor v)) \<longrightarrow>
      (\<exists>pv delta branch gp h'.
         value_iteration_turn (nat max_steps - 1) h1 policy env threshold discount_factor v =
           Inr (pv, delta, branch, gp, h') \<and>
         value_iteration (nat max_steps) h policy env value_function threshold max_steps
           discount_factor =
           Some (Inr \<lparr>returned_value = pv, returned_policy = gp, final_heap = h',
                       warned = True, steps = max_steps, last_delta = delta\<rparr>)))"
proof -
  have a: "(0::int) < max_steps" "nat (max_steps - 0) \<le> nat max_steps"
    using assms(1) by auto
  have pi: "policy_iteration (nat max_steps) h policy env value_function threshold max_steps discount_factor
      = policy_iteration_loop (nat max_steps) h1 policy env threshold max_steps discount_factor v 0"
    by (simp add: policy_iteration_def assms(2))
  have vi: "value_iteration (nat max_steps) h policy env value_function threshold max_steps discount_factor
      = value_iteration_loop (nat max_steps) h1 policy env threshold max_steps discount_factor v 0"
    by (simp add: value_iteration_def assms(2))
  show ?thesis
    unfolding pi vi
  proof (intro conjI impI)
    show "\<exists>r k. policy_iteration_loop (nat max_steps) h1 policy env threshold max_steps discount_factor v 0 = Some r \<and>
        k < nat max_steps \<and>
        (\<forall>j<k. not_converged threshold (policy_iteration_turn j h1 policy env discount_factor v)) \<and>
        (case r of
           Inl e \<Rightarrow> policy_iteration_turn k h1 policy env discount_factor v = Inl e
         | Inr res \<Rightarrow>
             policy_iteration_turn k h1 policy env discount_factor v =
               Inr (returned_value res, last_delta res, returned_policy res, final_heap res) \<and>
             steps res = int k + 1 \<and>
             (warned res \<longleftrightarrow> \<not> last_delta res < threshold) \<and>
             (warned res \<longrightarrow> steps res = max_steps))"
      by (rule policy_iteration_loop_outcome[OF a, of h1 policy env threshold discount_factor v,
            unfolded add_0 diff_zero])
    show "\<exists>r k. value_iteration_loop (nat max_steps) h1 policy env threshold max_steps discount_factor v 0 = Some r \<and>
        k < nat max_steps \<and>
        (\<forall>j<k. not_converged threshold
                 (value_iteration_turn j h1 policy env threshold discount_factor v)) \<and>
        (case r of
           Inl e \<Rightarrow> value_iteration_turn k h1 policy env threshold discount_factor v = Inl e
         | Inr res \<Rightarrow>
             (\<exists>branch. value_iteration_turn k h1 policy env threshold discount_factor v =
               Inr (returned_value res, last_delta res, branch, returned_policy res, final_heap res)) \<and>
             (warned res \<longleftrightarrow> \<not> last_delta res < threshold) \<and>
             steps res = (if warned res then max_steps else int k) \<and>
             (warned res \<longrightarrow> int k + 1 = max_steps))"
      by (rule value_iteration_loop_outcome[OF a, of h1 policy env threshold discount_factor v,
            unfolded add_0 diff_zero])
  next
    assume "\<forall>j<nat max_steps.
         not_converged threshold (policy_iteration_turn j h1 policy env discount_factor v)"
    then show "\<exists>pv delta gp h'.
         policy_iteration_turn (nat max_steps - 1) h1 policy env discount_factor v =
           Inr (pv, delta, gp, h') \<and>
         policy_iteration_loop (nat max_steps) h1 policy env threshold max_steps discount_factor v 0 =
           Some (Inr \<lparr>returned_value = pv, returned_policy = gp, final_heap = h',
                       warned = True, steps = max_steps, last_delta = delta\<rparr>)"
      using policy_iteration_loop_budget[OF a(1)] by blast
  next
    assume "\<forall>j<nat max_steps.
         not_converged threshold
           (value_iteration_turn j h1 policy env threshold discount_factor v)"
    then show "\<exists>pv delta branch gp h'.
         value_iteration_turn (nat max_steps - 1) h1 policy env threshold discount_factor v =
           Inr (pv, delta, branch, gp, h') \<and>
         value_iteration_loop (nat max_steps) h1 policy env threshold max_steps discount_factor v 0 =
           Some (Inr \<lparr>returned_value = pv, returned_policy = gp, final_heap = h',
                       warned = True, steps = max_steps, last_delta = delta\<rparr>)"
      using value_iteration_loop_budget[OF a(1)] by blast
  qed
qed

lemmas line_eval_defs = single_step_policy_evaluation_def np_zeros_def line_env_def upt3 upt2
  vec_get_def vec_set_def np_getitem_def np_index_def numeral_3_eq_3 np_subtract_def

lemmas line_greedy_defs = greedy_policy_from_value_function_def mat_get_def np_where_eq_def
  greedy_row_def mat_set_row_def numeral_2_eq_2

lemma line_sweep_improved:
  "single_step_policy_evaluation line_heap_improved 0 line_env 1 (Some 1) =
     Inr (2, line_heap_improved\<lparr>vecs := [[0, -2, 0], [-2, -1, 0], [-2, -1, 0]]\<rparr>)"
  by (simp add: line_heap_improved_def line_eval_defs)

lemma line_greedy_second:
  "greedy_policy_from_value_function
     (line_heap_improved\<lparr>vecs := [[0, -2, 0], [-2, -1, 0], [-2, -1, 0]]\<rparr>) 0 line_env 2 1 =
     Inr (0, line_heap_second)"
  by (simp add: line_heap_improved_def line_heap_second_def line_env_def upt3 upt2 vec_get_def
      np_getitem_def np_index_def line_greedy_defs)

lemma line_sweep_swept:
  "single_step_policy_evaluation line_heap_swept 0 line_env 1 (Some 1) =
     Inr (2, line_heap_swept_twice)"
  by (simp add: line_heap_swept_def line_heap_swept_twice_def line_eval_defs)

lemma line_pi_turn_0:
  "policy_iteration_body line_heap 0 line_env 1 0 = Inr (1, 2, 0, line_heap_improved)"
  by (simp add: policy_iteration_body_def line_sweep line_greedy_after_sweep[unfolded One_nat_def]
      np_subtract_def)

lemma line_pi_turn_1:
  "policy_iteration_body line_heap_improved 0 line_env 1 1 = Inr (2, 0, 0, line_heap_second)"
  by (simp add: policy_iteration_body_def line_sweep_improved[unfolded One_nat_def]
      line_greedy_second np_subtract_def)

lemma line_vi_turn_0:
  "value_iteration_body line_heap 0 line_env 0 1 0 = Inr (1, 2, Skipped, 0, line_heap_swept)"
  by (simp add: value_iteration_body_def check_policy_def line_sweep np_subtract_def)
     (simp add: line_heap_def line_heap_swept_def)

lemma line_vi_turn_1:
  "value_iteration_body line_heap_swept 0 line_env 0 1 1 =
     Inr (2, 1, Skipped, 0, line_heap_swept_twice)"
  by (simp add: value_iteration_body_def check_policy_def line_sweep_swept[unfolded One_nat_def]
      np_subtract_def line_heap_swept_twice_def)

lemma line_pi_turns:
  "policy_iteration_turn 0 line_heap 0 line_env 1 0 = Inr (1, 2, 0, line_heap_improved)"
  "policy_iteration_turn (Suc 0) line_heap 0 line_env 1 0 = Inr (2, 0, 0, line_heap_second)"
  by (simp_all add: line_pi_turn_0 line_pi_turn_1[unfolded One_nat_def])

lemma line_vi_turns:
  "value_iteration_turn 0 line_heap 0 line_env 0 1 0 = Inr (1, 2, Skipped, 0, line_heap_swept)"
  "value_iteration_turn (Suc 0) line_heap 0 line_env 0 1 0 =
     Inr (2, 1, Skipped, 0, line_heap_swept_twice)"
  by (simp_all add: line_vi_turn_0 line_vi_turn_1[unfolded One_nat_def])

theorem controllers_stop_within_budget_witness:
  "policy_iteration 2 line_heap 0 line_env (Some 0) 0 2 1 =
     Some (Inr \<lparr>returned_value = 2, returned_policy = 0, final_heap = line_heap_second,
                 warned = True, steps = 2, last_delta = 0\<rparr>) \<and>
   value_iteration 2 line_heap 0 line_env (Some 0) 0 2 1 =
     Some (Inr \<lparr>returned_value = 2, returned_policy = 0, final_heap = line_heap_swept_twice,
                 warned = True, steps = 2, last_delta = 1\<rparr>)"
proof -
  have budget: "(1::int) \<le> 2" by simp
  have start: "default_value_function line_heap line_env (Some 0) = (0, line_heap)"
    by (simp add: default_value_function_def)
  have n: "nat 2 = Suc (Suc 0)" "nat 2 - 1 = Suc 0" by simp_all
  have pi: "\<forall>j<nat 2. not_converged 0 (policy_iteration_turn j line_heap 0 line_env 1 0)"
    unfolding n(1) All_less_Suc line_pi_turns by simp
  have vi: "\<forall>j<nat 2. not_converged 0 (value_iteration_turn j line_heap 0 line_env 0 1 0)"
    unfolding n(1) All_less_Suc line_vi_turns by simp
  note both = controllers_stop_within_budget [OF budget start,
      where policy = 0 and threshold = 0 and discount_factor = 1]
  note at_budget_pi = both [THEN conjunct2, THEN conjunct1, THEN mp, OF pi]
  note at_budget_vi = both [THEN conjunct2, THEN conjunct2, THEN conjunct2, THEN mp, OF vi]
  have "policy_iteration 2 line_heap 0 line_env (Some 0) 0 2 1 =
     Some (Inr \<lparr>returned_value = 2, returned_policy = 0, final_heap = line_heap_second,
                 warned = True, steps = 2, last_delta = 0\<rparr>)"
    using at_budget_pi [unfolded n(2) line_pi_turns] by (simp del: policy_iteration_turn.simps)
  moreover have "value_iteration 2 line_heap 0 line_env (Some 0) 0 2 1 =
     Some (Inr \<lparr>returned_value = 2, returned_policy = 0, final_heap = line_heap_swept_twice,
                 warned = True, steps = 2, last_delta = 1\<rparr>)"
    using at_budget_vi [unfolded n(2) line_vi_turns] by (simp del: value_iteration_turn.simps)
  ultimately show ?thesis by (rule conjI)
qed


text \<open>
  C4 has the new policy compared with the previous one, and adopted when the test tells
  them apart. On the line world the uniform policy has no zero entry and the greedy one
  has: the test would tell them apart. But the improver has overwritten the array that
  \<^verbatim>\<open>greedy_policy\<close> names and handed the same array back, so the test compares it with
  itself and the loop stops in its first turn, without adopting anything.
\<close>

theorem value_iteration_compares_policy_with_itself:
  "np_all (mats line_heap ! 0) \<and> \<not> np_all (mats line_heap_improved ! 0) \<and>
   greedy_policy_from_value_function line_heap_swept 0 line_env 1 1 =
     Inr (0, line_heap_improved) \<and>
   value_iteration_body line_heap 0 line_env 3 1 0 =
     Inr (1, 2, Converged, 0, line_heap_improved) \<and>
   value_iteration 10 line_heap 0 line_env (Some 0) 3 10 1 =
     Some (Inr \<lparr>returned_value = 1, returned_policy = 0, final_heap = line_heap_improved,
                 warned = False, steps = 0, last_delta = 2\<rparr>)"
proof -
  have "greedy_policy_from_value_function line_heap_swept 0 line_env 1 1 =
     Inr (0, line_heap_improved)"
    using line_greedy_after_sweep by (simp add: line_heap_swept_def line_heap_def)
  moreover have "value_iteration_loop (Suc 9) line_heap 0 line_env 3 10 1 0 0 =
     Some (Inr \<lparr>returned_value = 1, returned_policy = 0, final_heap = line_heap_improved,
                 warned = False, steps = 0, last_delta = 2\<rparr>)"
    by (subst value_iteration_loop.simps(2)) (simp add: line_vi_body)
  then have "value_iteration 10 line_heap 0 line_env (Some 0) 3 10 1 =
     Some (Inr \<lparr>returned_value = 1, returned_policy = 0, final_heap = line_heap_improved,
                 warned = False, steps = 0, last_delta = 2\<rparr>)"
    by (simp add: value_iteration_def default_value_function_def)
  moreover have "np_all (mats line_heap ! 0)" "\<not> np_all (mats line_heap_improved ! 0)"
    by (simp_all add: np_all_def line_heap_def line_heap_improved_def)
  ultimately show ?thesis using line_vi_body by simp
qed

end
